theory Spec2Isabelle
  imports Main "HOL-Library.Word" "HOL-Library.Monad_Syntax"
begin

unbundle bit_operations_syntax

section \<open>Machine model\<close>

text \<open>
  The allocator of \<^verbatim>\<open>HMM.c\<close> keeps its metadata in band: a \<^verbatim>\<open>mem_chunk_t\<close> header
  sits in the same bytes that were, or will be, payload.  The embedding therefore keeps one
  byte-addressed memory and reads every header field out of it, on the LP64 little-endian
  layout the code is written for (\<^verbatim>\<open>sbrk\<close>, \<^verbatim>\<open>ULONG_MAX\<close> as the bound of \<^verbatim>\<open>size_t\<close>):

  \<^item> \<^verbatim>\<open>size_t\<close> and pointers are 64-bit words, \<^verbatim>\<open>NULL\<close> is 0, \<^verbatim>\<open>(void *)-1\<close> is \<open>- 1\<close>;
  \<^item> \<^verbatim>\<open>is_added\<close> is the byte at offset 0, \<^verbatim>\<open>is_free\<close> the byte at offset 1,
    \<^verbatim>\<open>size\<close>, \<^verbatim>\<open>prev\<close>, \<^verbatim>\<open>next\<close>, \<^verbatim>\<open>next_free\<close> the 8-byte fields at offsets 8, 16, 24, 32;
    \<^verbatim>\<open>sizeof(mem_chunk_t)\<close> is 40.
\<close>

type_synonym addr = "64 word"
type_synonym size_t = "64 word"
type_synonym byte = "8 word"
type_synonym memory = "addr \<Rightarrow> byte"

definition NULL :: addr where
  "NULL = 0"

definition ALIGNMENT :: size_t where
  "ALIGNMENT = 8"

definition ALLOCATED_BYTES :: size_t where
  "ALLOCATED_BYTES = 8 * 1024 * 1024"

definition MULTIPLES_MAX :: size_t where
  "MULTIPLES_MAX = ALLOCATED_BYTES div ALIGNMENT"

definition ULONG_MAX :: size_t where
  "ULONG_MAX = - 1"

definition header_size :: size_t where
  "header_size = 40"

subsection \<open>Bytes and 8-byte fields\<close>

definition byte_of :: "64 word \<Rightarrow> nat \<Rightarrow> byte" where
  "byte_of v i = ucast (drop_bit (8 * i) v)"

definition load8 :: "memory \<Rightarrow> addr \<Rightarrow> byte" where
  "load8 m a = m a"

definition store8 :: "memory \<Rightarrow> addr \<Rightarrow> byte \<Rightarrow> memory" where
  "store8 m a v = (\<lambda>x. if x = a then v else m x)"

definition load64 :: "memory \<Rightarrow> addr \<Rightarrow> 64 word" where
  "load64 m a =
     ucast (m a) OR push_bit 8 (ucast (m (a + 1))) OR push_bit 16 (ucast (m (a + 2)))
     OR push_bit 24 (ucast (m (a + 3))) OR push_bit 32 (ucast (m (a + 4)))
     OR push_bit 40 (ucast (m (a + 5))) OR push_bit 48 (ucast (m (a + 6)))
     OR push_bit 56 (ucast (m (a + 7)))"

definition store64 :: "memory \<Rightarrow> addr \<Rightarrow> 64 word \<Rightarrow> memory" where
  "store64 m a v = (\<lambda>x. if x - a < 8 then byte_of v (unat (x - a)) else m x)"

text \<open>\<^verbatim>\<open>memset\<close> and \<^verbatim>\<open>memcpy\<close> over \<open>n\<close> bytes; the source region of \<^verbatim>\<open>memcpy\<close> is read
  from the memory before the call.\<close>

definition memset :: "memory \<Rightarrow> addr \<Rightarrow> byte \<Rightarrow> size_t \<Rightarrow> memory" where
  "memset m p v n = (\<lambda>x. if x - p < n then v else m x)"

definition memcpy :: "memory \<Rightarrow> addr \<Rightarrow> addr \<Rightarrow> size_t \<Rightarrow> memory" where
  "memcpy m dst src n = (\<lambda>x. if x - dst < n then m (src + (x - dst)) else m x)"

subsection \<open>The fields of \<^verbatim>\<open>mem_chunk_t\<close>\<close>

definition is_added :: "memory \<Rightarrow> addr \<Rightarrow> byte" where
  "is_added m c = load8 m c"

definition is_free :: "memory \<Rightarrow> addr \<Rightarrow> byte" where
  "is_free m c = load8 m (c + 1)"

definition chunk_size :: "memory \<Rightarrow> addr \<Rightarrow> size_t" where
  "chunk_size m c = load64 m (c + 8)"

definition chunk_prev :: "memory \<Rightarrow> addr \<Rightarrow> addr" where
  "chunk_prev m c = load64 m (c + 16)"

definition chunk_next :: "memory \<Rightarrow> addr \<Rightarrow> addr" where
  "chunk_next m c = load64 m (c + 24)"

definition next_free :: "memory \<Rightarrow> addr \<Rightarrow> addr" where
  "next_free m c = load64 m (c + 32)"

definition set_is_added :: "addr \<Rightarrow> byte \<Rightarrow> memory \<Rightarrow> memory" where
  "set_is_added c v m = store8 m c v"

definition set_is_free :: "addr \<Rightarrow> byte \<Rightarrow> memory \<Rightarrow> memory" where
  "set_is_free c v m = store8 m (c + 1) v"

definition set_size :: "addr \<Rightarrow> size_t \<Rightarrow> memory \<Rightarrow> memory" where
  "set_size c v m = store64 m (c + 8) v"

definition set_prev :: "addr \<Rightarrow> addr \<Rightarrow> memory \<Rightarrow> memory" where
  "set_prev c v m = store64 m (c + 16) v"

definition set_next :: "addr \<Rightarrow> addr \<Rightarrow> memory \<Rightarrow> memory" where
  "set_next c v m = store64 m (c + 24) v"

definition set_next_free :: "addr \<Rightarrow> addr \<Rightarrow> memory \<Rightarrow> memory" where
  "set_next_free c v m = store64 m (c + 32) v"

subsection \<open>Allocator state\<close>

text \<open>
  The globals of \<^verbatim>\<open>HMM.c\<close> (\<^verbatim>\<open>block_freq\<close>, \<^verbatim>\<open>head\<close>, \<^verbatim>\<open>tail\<close>, \<^verbatim>\<open>current_free_size\<close>),
  the memory, and the program break with the bounds between which the system lets it move.
\<close>

record hmm_state =
  mem :: memory
  block_freq :: "size_t \<Rightarrow> addr"
  head :: addr
  tail :: addr
  current_free_size :: size_t
  brk :: addr
  brk_min :: addr
  brk_max :: addr

text \<open>
  \<^verbatim>\<open>sbrk(increment)\<close>: the increment is an \<^verbatim>\<open>intptr_t\<close>, so a word with the top bit set
  moves the break down.  On success the old break is returned; on failure \<^verbatim>\<open>(void *)-1\<close>
  and the break stays.  Memory content is not touched.
\<close>

definition sbrk :: "64 word \<Rightarrow> hmm_state \<Rightarrow> addr \<times> hmm_state" where
  "sbrk increment s =
     (let new_brk = uint (brk s) + sint increment in
      if uint (brk_min s) \<le> new_brk \<and> new_brk \<le> uint (brk_max s)
      then (brk s, s\<lparr>brk := brk s + increment\<rparr>)
      else (- 1, s))"

section \<open>The freelist index\<close>

text \<open>Lines 86 to 95: \<^verbatim>\<open>current\<close> is the block looked for; it leaves its bucket.\<close>

definition unlink_block :: "addr \<Rightarrow> size_t \<Rightarrow> addr \<Rightarrow> hmm_state \<Rightarrow> hmm_state" where
  "unlink_block current idx prv s =
     (let s1 = s\<lparr>mem := set_is_added current 0 (mem s)\<rparr>;
          s2 = s1\<lparr>current_free_size := current_free_size s1 - chunk_size (mem s1) current\<rparr>
      in if prv \<noteq> NULL
         then s2\<lparr>mem := set_next_free prv (next_free (mem s2) current) (mem s2)\<rparr>
         else s2\<lparr>block_freq :=
                (block_freq s2)(idx := next_free (mem s2) (block_freq s2 idx))\<rparr>)"

text \<open>The \<^verbatim>\<open>while (current)\<close> loop of \<^verbatim>\<open>HMMremove_free_block\<close>.\<close>

partial_function (option) remove_walk ::
  "addr \<Rightarrow> size_t \<Rightarrow> addr \<Rightarrow> addr \<Rightarrow> hmm_state \<Rightarrow> hmm_state option" where
  "remove_walk block idx current prv s =
     (if current = NULL then Some s
      else if current = block then Some (unlink_block current idx prv s)
      else remove_walk block idx (next_free (mem s) current) current s)"

definition HMMremove_free_block :: "addr \<Rightarrow> hmm_state \<Rightarrow> hmm_state option" where
  "HMMremove_free_block block s =
     (if block = NULL then Some s
      else
        (let cur_size = chunk_size (mem s) block;
             idx = cur_size div ALIGNMENT - 1
         in if idx < MULTIPLES_MAX
            then remove_walk block idx (block_freq s idx) NULL s
            else Some s))"

definition HMMis_block_found :: "addr \<Rightarrow> hmm_state \<Rightarrow> byte" where
  "HMMis_block_found block s = is_added (mem s) block"

definition HMMadd_free_block :: "addr \<Rightarrow> hmm_state \<Rightarrow> hmm_state" where
  "HMMadd_free_block block s =
     (if block = NULL then s
      else
        (let cur_size = chunk_size (mem s) block;
             idx = cur_size div ALIGNMENT - 1
         in if idx < MULTIPLES_MAX
            then
              (if HMMis_block_found block s \<noteq> 0 then s
               else
                 (let s1 = s\<lparr>current_free_size :=
                              current_free_size s + chunk_size (mem s) block\<rparr>;
                      s2 = s1\<lparr>mem := set_is_added block 1 (mem s1)\<rparr>
                  in if block_freq s2 idx = NULL
                     then
                       (let s3 = s2\<lparr>block_freq := (block_freq s2)(idx := block)\<rparr>
                        in s3\<lparr>mem := set_next_free block NULL (mem s3)\<rparr>)
                     else
                       (let s3 = s2\<lparr>mem := set_next_free block (block_freq s2 idx) (mem s2)\<rparr>
                        in s3\<lparr>block_freq := (block_freq s3)(idx := block)\<rparr>)))
            else s))"

definition HMMget_free_block :: "size_t \<Rightarrow> hmm_state \<Rightarrow> addr \<times> hmm_state" where
  "HMMget_free_block sz s =
     (let idx = sz div ALIGNMENT - 1
      in if idx < MULTIPLES_MAX \<and> block_freq s idx \<noteq> NULL
         then
           (let ret = block_freq s idx;
                s1 = s\<lparr>current_free_size := current_free_size s - chunk_size (mem s) ret\<rparr>;
                s2 = s1\<lparr>mem := set_is_added ret 0 (mem s1)\<rparr>;
                s3 = s2\<lparr>block_freq :=
                        (block_freq s2)(idx := next_free (mem s2) (block_freq s2 idx))\<rparr>
            in (ret, s3))
         else (NULL, s))"

section \<open>Coalescing\<close>

text \<open>
  The \<^verbatim>\<open>while (current)\<close> loop of \<^verbatim>\<open>HMMcoalesce\<close>; it returns the loop variables
  \<^verbatim>\<open>current\<close>, \<^verbatim>\<open>last_collecting\<close>, \<^verbatim>\<open>total_size\<close> at the exit.
\<close>

partial_function (option) coalesce_walk ::
  "addr \<Rightarrow> addr \<Rightarrow> size_t \<Rightarrow> hmm_state \<Rightarrow> (addr \<times> addr \<times> size_t \<times> hmm_state) option" where
  "coalesce_walk current last_collecting total_size s =
     (if current = NULL then Some (current, last_collecting, total_size, s)
      else if is_free (mem s) current = 1 then
        (let last_collecting' = (if last_collecting = NULL then current else last_collecting);
             total_size' = (if last_collecting = NULL then total_size
                            else total_size + (chunk_size (mem s) current + header_size))
         in do {
              s1 \<leftarrow> HMMremove_free_block current s;
              coalesce_walk (chunk_next (mem s1) current) last_collecting' total_size' s1
            })
      else Some (current, last_collecting, total_size, s))"

definition HMMcoalesce :: "addr \<Rightarrow> hmm_state \<Rightarrow> hmm_state option" where
  "HMMcoalesce start s =
     (if start = NULL then Some s
      else do {
        (current, last_collecting, total_size, s1) \<leftarrow> coalesce_walk start NULL 0 s;
        if total_size > 0 then
          (let s2 = s1\<lparr>mem := set_size last_collecting
                                 (chunk_size (mem s1) last_collecting + total_size) (mem s1)\<rparr>;
               s3 = s2\<lparr>mem := set_next last_collecting current (mem s2)\<rparr>;
               s4 = (if current \<noteq> NULL
                     then s3\<lparr>mem := set_prev current last_collecting (mem s3)\<rparr> else s3)
           in if current = NULL
              then
                (let s5 = s4\<lparr>tail := last_collecting\<rparr>
                 in Some (s5\<lparr>mem := set_next (tail s5) NULL (mem s5)\<rparr>))
              else Some s4)
        else Some s1
      })"

section \<open>Finding or creating a free chunk\<close>

text \<open>The split of lines 241 to 258: \<^verbatim>\<open>current\<close> keeps \<open>sz\<close> bytes, the rest becomes
  the chunk \<^verbatim>\<open>splitted\<close>.\<close>

definition split_chunk :: "addr \<Rightarrow> size_t \<Rightarrow> hmm_state \<Rightarrow> hmm_state" where
  "split_chunk current sz s =
     (let current_next = chunk_next (mem s) current;
          splitted = current + header_size + sz;
          s1 = s\<lparr>mem := set_prev splitted current (mem s)\<rparr>;
          s2 = s1\<lparr>mem := set_next splitted current_next (mem s1)\<rparr>;
          s3 = s2\<lparr>mem := set_is_free splitted 1 (mem s2)\<rparr>;
          s4 = (if current_next \<noteq> NULL
                then s3\<lparr>mem := set_prev current_next splitted (mem s3)\<rparr> else s3);
          s5 = s4\<lparr>mem := set_next current splitted (mem s4)\<rparr>;
          s6 = (if current = tail s5
                then (let t = s5\<lparr>tail := splitted\<rparr>
                      in t\<lparr>mem := set_next (tail t) NULL (mem t)\<rparr>)
                else s5);
          s7 = s6\<lparr>mem := set_size splitted
                             (chunk_size (mem s6) current - sz - header_size) (mem s6)\<rparr>;
          s8 = HMMadd_free_block splitted s7
      in s8\<lparr>mem := set_size current sz (mem s8)\<rparr>)"

text \<open>
  The descending scan of lines 229 to 267.  The result is the chunk the loop returns, or
  \<open>NULL\<close> when the loop runs off the head of the list.
\<close>

partial_function (option) scan_walk ::
  "size_t \<Rightarrow> addr \<Rightarrow> hmm_state \<Rightarrow> (addr \<times> hmm_state) option" where
  "scan_walk sz current s =
     (if current = NULL then Some (NULL, s)
      else if is_free (mem s) current = 1 \<and> chunk_size (mem s) current \<ge> sz then
        do {
          s1 \<leftarrow> HMMremove_free_block current s;
          if chunk_size (mem s1) current > header_size + sz
          then Some (current, split_chunk current sz s1)
          else Some (current, s1)
        }
      else
        (let s1 = (if is_free (mem s) current = 1 then HMMadd_free_block current s else s)
         in scan_walk sz (chunk_prev (mem s1) current) s1))"

definition num_allocated_bytes :: "size_t \<Rightarrow> size_t" where
  "num_allocated_bytes sz =
     ((sz + header_size + ALLOCATED_BYTES) div ALLOCATED_BYTES) * ALLOCATED_BYTES"

text \<open>Lines 289 to 300: a new chunk over the bytes \<^verbatim>\<open>sbrk\<close> returned, linked after the tail.\<close>

definition append_chunk :: "addr \<Rightarrow> size_t \<Rightarrow> hmm_state \<Rightarrow> hmm_state" where
  "append_chunk new_chunk n s =
     (let s1 = s\<lparr>mem := set_is_free new_chunk 1 (mem s)\<rparr>;
          s2 = s1\<lparr>mem := set_size new_chunk (n - header_size) (mem s1)\<rparr>;
          s3 = s2\<lparr>mem := set_prev new_chunk (tail s2) (mem s2)\<rparr>;
          s4 = s3\<lparr>mem := set_next new_chunk NULL (mem s3)\<rparr>;
          s5 = (if tail s4 \<noteq> NULL
                then s4\<lparr>mem := set_next (tail s4) new_chunk (mem s4)\<rparr> else s4);
          s6 = s5\<lparr>tail := new_chunk\<rparr>;
          s7 = s6\<lparr>mem := set_next (tail s6) NULL (mem s6)\<rparr>;
          s8 = (if head s7 = NULL then s7\<lparr>head := tail s7\<rparr> else s7)
      in HMMadd_free_block (tail s8) s8)"

partial_function (option) HMMget_free_chunk ::
  "size_t \<Rightarrow> hmm_state \<Rightarrow> (addr \<times> hmm_state) option" where
  "HMMget_free_chunk sz s =
     (case HMMget_free_block sz s of (get_free, s0) \<Rightarrow>
        if get_free \<noteq> NULL then Some (get_free, s0)
        else do {
          (found, s1) \<leftarrow> scan_walk sz (tail s0) s0;
          if found \<noteq> NULL then Some (found, s1)
          else
            (case sbrk (num_allocated_bytes sz) s1 of (new_free_space, s2) \<Rightarrow>
               if new_free_space = - 1 then Some (NULL, s2)
               else do {
                 s3 \<leftarrow> HMMremove_free_block (tail s2) s2;
                 if tail s3 \<noteq> NULL \<and> is_free (mem s3) (tail s3) = 1
                 then
                   (let s4 = s3\<lparr>mem := set_size (tail s3)
                                (chunk_size (mem s3) (tail s3) + num_allocated_bytes sz) (mem s3)\<rparr>;
                        s5 = s4\<lparr>mem := set_next (tail s4) NULL (mem s4)\<rparr>
                    in HMMget_free_chunk sz s5)
                 else HMMget_free_chunk sz
                        (append_chunk new_free_space (num_allocated_bytes sz) s3)
               })
        })"

section \<open>The public operations\<close>

text \<open>The backward walk of lines 350 to 362; it returns \<^verbatim>\<open>current\<close> and \<^verbatim>\<open>total_size\<close>.\<close>

partial_function (option) shrink_walk ::
  "addr \<Rightarrow> size_t \<Rightarrow> hmm_state \<Rightarrow> (addr \<times> size_t \<times> hmm_state) option" where
  "shrink_walk current total_size s =
     (if current = NULL then Some (current, total_size, s)
      else if is_free (mem s) current = 1 then
        do {
          s1 \<leftarrow> HMMremove_free_block current s;
          shrink_walk (chunk_prev (mem s1) current)
            (total_size + (chunk_size (mem s) current + header_size)) s1
        }
      else Some (current, total_size, s))"

definition release_excess :: "hmm_state \<Rightarrow> hmm_state option" where
  "release_excess s =
     (if current_free_size s \<ge> ALLOCATED_BYTES then
        do {
          (current, total_size, s1) \<leftarrow> shrink_walk (tail s) 0 s;
          if total_size \<ge> ALLOCATED_BYTES then
            (let s2 = (if current = NULL then s1\<lparr>head := NULL, tail := NULL\<rparr>
                       else (let t = s1\<lparr>tail := current\<rparr>
                             in t\<lparr>mem := set_next (tail t) NULL (mem t)\<rparr>))
             in Some (snd (sbrk (- total_size) s2)))
          else Some s1
        }
      else Some s)"

text \<open>Lines 329 to 342: the chunk just marked free is merged with its free neighbours and
  indexed.\<close>

definition merge_freed :: "addr \<Rightarrow> hmm_state \<Rightarrow> hmm_state option" where
  "merge_freed alloacted_member s1 =
     (if chunk_prev (mem s1) alloacted_member \<noteq> NULL
         \<and> is_free (mem s1) (chunk_prev (mem s1) alloacted_member) = 1
      then do {
        c \<leftarrow> HMMcoalesce (chunk_prev (mem s1) alloacted_member) s1;
        Some (HMMadd_free_block (chunk_prev (mem c) alloacted_member) c)
      }
      else if chunk_next (mem s1) alloacted_member \<noteq> NULL
         \<and> is_free (mem s1) (chunk_next (mem s1) alloacted_member) = 1
      then do {
        c \<leftarrow> HMMcoalesce alloacted_member s1;
        Some (HMMadd_free_block alloacted_member c)
      }
      else Some (HMMadd_free_block alloacted_member s1))"

definition HMMfree :: "addr \<Rightarrow> hmm_state \<Rightarrow> hmm_state option" where
  "HMMfree ptr s =
     (if ptr = NULL then Some s
      else
        (let alloacted_member = ptr - header_size
         in if is_free (mem s) alloacted_member = 0 then
              (let s1 = s\<lparr>mem := set_is_free alloacted_member 1 (mem s)\<rparr>
               in do {
                 s2 \<leftarrow> merge_freed alloacted_member s1;
                 release_excess s2
               })
            else Some s))"

definition HMMmalloc :: "size_t \<Rightarrow> hmm_state \<Rightarrow> (addr \<times> hmm_state) option" where
  "HMMmalloc size0 s =
     (let size1 = (if size0 = 0 then ALIGNMENT else size0);
          sz = (size1 + (ALIGNMENT - 1)) AND NOT (ALIGNMENT - 1)
      in do {
        (allocated_area_data, s1) \<leftarrow> HMMget_free_chunk sz s;
        if allocated_area_data = NULL then Some (NULL, s1)
        else Some (allocated_area_data + header_size,
                   s1\<lparr>mem := set_is_free allocated_area_data 0 (mem s1)\<rparr>)
      })"

definition HMMcalloc :: "size_t \<Rightarrow> size_t \<Rightarrow> hmm_state \<Rightarrow> (addr \<times> hmm_state) option" where
  "HMMcalloc nmemb size0 s =
     (if size0 \<noteq> 0 \<and> nmemb > ULONG_MAX div size0 then Some (NULL, s)
      else
        (let size1 = ((size0 * nmemb) + (ALIGNMENT - 1)) AND NOT (ALIGNMENT - 1);
             sz = (if size1 = 0 then ALIGNMENT else size1)
         in do {
           (allocated_area, s1) \<leftarrow> HMMmalloc sz s;
           if allocated_area = NULL then Some (NULL, s1)
           else Some (allocated_area,
                  s1\<lparr>mem := memset (mem s1) allocated_area 0
                                (chunk_size (mem s1) (allocated_area - header_size))\<rparr>)
         }))"

definition HMMrealloc :: "addr \<Rightarrow> size_t \<Rightarrow> hmm_state \<Rightarrow> (addr \<times> hmm_state) option" where
  "HMMrealloc ptr size0 s =
     (let sz = (size0 + (ALIGNMENT - 1)) AND NOT (ALIGNMENT - 1)
      in if ptr = NULL then HMMmalloc sz s
         else if sz = 0 then do { s1 \<leftarrow> HMMfree ptr s; HMMmalloc ALIGNMENT s1 }
         else if sz = chunk_size (mem s) (ptr - header_size) then Some (ptr, s)
         else do {
           (allocated_chunk, s1) \<leftarrow> HMMmalloc sz s;
           if allocated_chunk = NULL then Some (NULL, s1)
           else
             (let allocation_size =
                    (if chunk_size (mem s1) (ptr - header_size)
                          < chunk_size (mem s1) (allocated_chunk - header_size)
                     then chunk_size (mem s1) (ptr - header_size)
                     else chunk_size (mem s1) (allocated_chunk - header_size));
                  s2 = s1\<lparr>mem := memcpy (mem s1) allocated_chunk ptr allocation_size\<rparr>
              in do { s3 \<leftarrow> HMMfree ptr s2; Some (allocated_chunk, s3) })
         })"

text \<open>The state before the first call: no chunk, an empty index, untouched memory.\<close>

definition empty_heap :: "addr \<Rightarrow> addr \<Rightarrow> hmm_state" where
  "empty_heap base limit =
     \<lparr>mem = (\<lambda>_. 0), block_freq = (\<lambda>_. NULL), head = NULL, tail = NULL,
      current_free_size = 0, brk = base, brk_min = base, brk_max = limit\<rparr>"

section \<open>Clients\<close>

text \<open>
  The exported \<^verbatim>\<open>malloc\<close>, \<^verbatim>\<open>free\<close>, \<^verbatim>\<open>calloc\<close> and \<^verbatim>\<open>realloc\<close> take the mutex, call the
  function above and release the mutex.  A client is a script of such calls; it names a
  pointer by its position in the list of pointers returned so far, and \<open>Poke\<close> is the
  client storing one byte into a payload it was given.  A request that names a pointer the
  client does not have is skipped.
\<close>

datatype request =
    Malloc size_t
  | Free nat
  | Calloc size_t size_t
  | Realloc nat size_t
  | Poke nat size_t byte

fun serve :: "request \<Rightarrow> addr list \<times> hmm_state \<Rightarrow> (addr list \<times> hmm_state) option" where
  "serve (Malloc n) (ps, s) = do { (p, s') \<leftarrow> HMMmalloc n s; Some (ps @ [p], s') }"
| "serve (Free i) (ps, s) =
     (if i < length ps then do { s' \<leftarrow> HMMfree (ps ! i) s; Some (ps, s') } else Some (ps, s))"
| "serve (Calloc n k) (ps, s) = do { (p, s') \<leftarrow> HMMcalloc n k s; Some (ps @ [p], s') }"
| "serve (Realloc i n) (ps, s) =
     (if i < length ps then do { (p, s') \<leftarrow> HMMrealloc (ps ! i) n s; Some (ps @ [p], s') }
      else Some (ps, s))"
| "serve (Poke i off v) (ps, s) =
     (if i < length ps then Some (ps, s\<lparr>mem := store8 (mem s) (ps ! i + off) v\<rparr>)
      else Some (ps, s))"

fun run :: "request list \<Rightarrow> addr list \<times> hmm_state \<Rightarrow> (addr list \<times> hmm_state) option" where
  "run [] c = Some c"
| "run (r # rs) c = do { c' \<leftarrow> serve r c; run rs c' }"

text \<open>What a script returned and what it left behind.\<close>

definition returned :: "(addr list \<times> hmm_state) option \<Rightarrow> addr list option" where
  "returned r = map_option fst r"

definition observe :: "(hmm_state \<Rightarrow> 'a) \<Rightarrow> (addr list \<times> hmm_state) option \<Rightarrow> 'a option" where
  "observe f r = map_option (\<lambda>c. f (snd c)) r"

definition added_at :: "addr \<Rightarrow> hmm_state \<Rightarrow> byte" where
  "added_at c s = is_added (mem s) c"

definition free_at :: "addr \<Rightarrow> hmm_state \<Rightarrow> byte" where
  "free_at c s = is_free (mem s) c"

definition size_at :: "addr \<Rightarrow> hmm_state \<Rightarrow> size_t" where
  "size_at c s = chunk_size (mem s) c"

definition next_at :: "addr \<Rightarrow> hmm_state \<Rightarrow> addr" where
  "next_at c s = chunk_next (mem s) c"

definition prev_at :: "addr \<Rightarrow> hmm_state \<Rightarrow> addr" where
  "prev_at c s = chunk_prev (mem s) c"

definition bucket :: "size_t \<Rightarrow> hmm_state \<Rightarrow> addr" where
  "bucket i s = block_freq s i"

definition byte_at :: "addr \<Rightarrow> hmm_state \<Rightarrow> byte" where
  "byte_at a s = load8 (mem s) a"

text \<open>The walk of \<^verbatim>\<open>HMMtraverse\<close>: the chunks from \<open>cur\<close> along \<^verbatim>\<open>next\<close>.\<close>

partial_function (option) traverse :: "memory \<Rightarrow> addr \<Rightarrow> addr list option" where
  "traverse m cur =
     (if cur = NULL then Some []
      else do { rest \<leftarrow> traverse m (chunk_next m cur); Some (cur # rest) })"

definition HMMtraverse :: "hmm_state \<Rightarrow> addr list option" where
  "HMMtraverse s = traverse (mem s) (head s)"

text \<open>The sum of \<^verbatim>\<open>size\<close> over the chunks of the list whose \<^verbatim>\<open>is_added\<close> is set.\<close>

definition indexed_total :: "hmm_state \<Rightarrow> size_t option" where
  "indexed_total s =
     map_option
       (\<lambda>cs. sum_list (map (chunk_size (mem s)) (filter (\<lambda>c. is_added (mem s) c \<noteq> 0) cs)))
       (HMMtraverse s)"

text \<open>A client that has not called the allocator yet, with the break at \<open>base\<close> and room
  up to \<open>limit\<close>.\<close>

definition fresh :: "addr \<Rightarrow> addr \<Rightarrow> addr list \<times> hmm_state" where
  "fresh base limit = ([], empty_heap base limit)"

text \<open>
  The states in which a request of \<open>2 ^ 64 - ALLOCATED_BYTES - header_size\<close> bytes goes round
  in \<^verbatim>\<open>HMMget_free_chunk\<close>: the tail chunk at \<open>0x1000030\<close> is free and holds 8388520 bytes,
  the chunk before it is in use and is the head of the list, and the tail is either outside
  the index or alone in its bucket.
\<close>

definition spinning :: "hmm_state \<Rightarrow> bool" where
  "spinning s \<longleftrightarrow>
     tail s = 0x1000030
     \<and> load8 (mem s) 0x1000031 = 1
     \<and> load64 (mem s) 0x1000038 = 8388520
     \<and> load64 (mem s) 0x1000040 = 0x1000000
     \<and> load8 (mem s) 0x1000001 = 0
     \<and> load64 (mem s) 0x1000010 = 0
     \<and> uint (brk_min s) \<le> uint (brk s) \<and> uint (brk s) \<le> uint (brk_max s) \<and> brk s \<noteq> - 1
     \<and> (if load8 (mem s) 0x1000030 = 0 then block_freq s 1048564 = 0
         else block_freq s 1048564 = 0x1000030 \<and> load64 (mem s) 0x1000050 = 0)"

section \<open>Well-formed heaps\<close>

text \<open>
  What the proofs about arbitrary states assume of the heap.  \<open>H\<close> is a set of chunk
  addresses whose headers do not overlap; \<open>chain\<close> follows a pointer field from a chunk
  through a list of chunks to an end; \<open>index_ok\<close> says that every bucket of the freelist
  index is a \<open>NULL\<close>-terminated list, threaded through \<^verbatim>\<open>next_free\<close>, of chunks of \<open>H\<close>
  whose size class is the bucket's number; \<open>same_chunks\<close> relates two states whose chunk
  list is the same (the index may differ).  \<open>three_chunks\<close> is a small heap of that kind:
  two free chunks of 16 and 24 bytes, each alone in its bucket, and a chunk in use.
\<close>

definition apart :: "addr \<Rightarrow> addr \<Rightarrow> bool" where
  "apart c d \<longleftrightarrow> 40 \<le> c - d \<and> 40 \<le> d - c"

definition pairwise_apart :: "addr set \<Rightarrow> bool" where
  "pairwise_apart H \<longleftrightarrow> (\<forall>x\<in>H. \<forall>y\<in>H. x \<noteq> y \<longrightarrow> apart x y)"

fun chain :: "(addr \<Rightarrow> addr) \<Rightarrow> addr \<Rightarrow> addr list \<Rightarrow> addr \<Rightarrow> bool" where
  "chain nx p [] t \<longleftrightarrow> p = t"
| "chain nx p (x # xs) t \<longleftrightarrow> p = x \<and> x \<noteq> NULL \<and> chain nx (nx x) xs t"

definition bucket_of :: "memory \<Rightarrow> addr \<Rightarrow> size_t" where
  "bucket_of m c = chunk_size m c div ALIGNMENT - 1"

definition index_ok :: "addr set \<Rightarrow> (size_t \<Rightarrow> addr list) \<Rightarrow> hmm_state \<Rightarrow> bool" where
  "index_ok H L s \<longleftrightarrow>
     (\<forall>i. i < MULTIPLES_MAX \<longrightarrow>
        chain (next_free (mem s)) (block_freq s i) (L i) NULL
        \<and> set (L i) \<subseteq> H
        \<and> (\<forall>x\<in>set (L i). bucket_of (mem s) x = i))"

definition same_chunks :: "addr set \<Rightarrow> hmm_state \<Rightarrow> hmm_state \<Rightarrow> bool" where
  "same_chunks H s s' \<longleftrightarrow>
     head s' = head s \<and> tail s' = tail s \<and> brk s' = brk s
     \<and> brk_min s' = brk_min s \<and> brk_max s' = brk_max s
     \<and> (\<forall>x\<in>H. is_free (mem s') x = is_free (mem s) x
              \<and> chunk_size (mem s') x = chunk_size (mem s) x
              \<and> chunk_prev (mem s') x = chunk_prev (mem s) x
              \<and> chunk_next (mem s') x = chunk_next (mem s) x)"

definition three_chunks :: hmm_state where
  "three_chunks =
     \<lparr>mem =
        (set_is_added 0x1000 1 \<circ> set_is_free 0x1000 1 \<circ> set_size 0x1000 16
         \<circ> set_prev 0x1000 NULL \<circ> set_next 0x1000 0x1038 \<circ> set_next_free 0x1000 NULL
         \<circ> set_is_added 0x1038 1 \<circ> set_is_free 0x1038 1 \<circ> set_size 0x1038 24
         \<circ> set_prev 0x1038 0x1000 \<circ> set_next 0x1038 0x1078 \<circ> set_next_free 0x1038 NULL
         \<circ> set_is_added 0x1078 0 \<circ> set_is_free 0x1078 0 \<circ> set_size 0x1078 8
         \<circ> set_prev 0x1078 0x1038 \<circ> set_next 0x1078 NULL) (\<lambda>_. 0),
      block_freq = (\<lambda>_. NULL)(1 := 0x1000, 2 := 0x1038),
      head = 0x1000, tail = 0x1078, current_free_size = 40,
      brk = 0x10A8, brk_min = 0x1000, brk_max = 0x10A8\<rparr>"

definition three_chunks_index :: "size_t \<Rightarrow> addr list" where
  "three_chunks_index = (\<lambda>_. [])(1 := [0x1000], 2 := [0x1038])"

definition flags_ok :: "addr set \<Rightarrow> (size_t \<Rightarrow> addr list) \<Rightarrow> hmm_state \<Rightarrow> bool" where
  "flags_ok H L s \<longleftrightarrow>
     (\<forall>x\<in>H. (is_added (mem s) x \<noteq> 0) = (\<exists>i. i < MULTIPLES_MAX \<and> x \<in> set (L i)))"

text \<open>
  Every free chunk of \<open>H\<close> whose size class the index can hold carries the flag, and the
  chunks that \<^verbatim>\<open>HMMfree\<close> fuses when it releases \<open>c\<close>: the predecessor if it is free, \<open>c\<close>, and
  the free run \<open>rest\<close> that follows \<open>c\<close>.
\<close>

definition free_indexed :: "addr set \<Rightarrow> hmm_state \<Rightarrow> bool" where
  "free_indexed H s \<longleftrightarrow>
     (\<forall>x\<in>H. is_free (mem s) x = 1 \<and> bucket_of (mem s) x < MULTIPLES_MAX
             \<longrightarrow> is_added (mem s) x \<noteq> 0)"

definition merged_run :: "memory \<Rightarrow> addr \<Rightarrow> addr list \<Rightarrow> addr list" where
  "merged_run m c rest =
     (if chunk_prev m c \<noteq> NULL \<and> is_free m (chunk_prev m c) = 1
      then chunk_prev m c # c # rest else c # rest)"





section \<open>The specification's formulas\<close>


section \<open>Bytes written and read back\<close>

lemma bit_byte_piece:
  "bit (push_bit j (ucast (ucast (drop_bit j v) :: byte)) :: 64 word) n
     = (j \<le> n \<and> n < j + 8 \<and> bit (v :: 64 word) n)"
  by (auto simp: bit_simps dest: bit_imp_le_length)

lemma bit_byte_low:
  "bit (ucast (ucast v :: byte) :: 64 word) n = (n < 8 \<and> bit (v :: 64 word) n)"
  using bit_byte_piece [of 0 v n] by simp

lemma byte_recombine:
  "ucast (byte_of v 0) OR push_bit 8 (ucast (byte_of v 1)) OR push_bit 16 (ucast (byte_of v 2))
     OR push_bit 24 (ucast (byte_of v 3)) OR push_bit 32 (ucast (byte_of v 4))
     OR push_bit 40 (ucast (byte_of v 5)) OR push_bit 48 (ucast (byte_of v 6))
     OR push_bit 56 (ucast (byte_of v 7)) = (v :: 64 word)"
proof (rule bit_word_eqI)
  fix n :: nat
  assume "n < LENGTH(64)"
  then have n: "n < 64" by simp
  have "bit (ucast (byte_of v 0) OR push_bit 8 (ucast (byte_of v 1))
     OR push_bit 16 (ucast (byte_of v 2))
     OR push_bit 24 (ucast (byte_of v 3)) OR push_bit 32 (ucast (byte_of v 4))
     OR push_bit 40 (ucast (byte_of v 5)) OR push_bit 48 (ucast (byte_of v 6))
     OR push_bit 56 (ucast (byte_of v 7)) :: 64 word) n
    = ((n < 8 \<or> (8 \<le> n \<and> n < 16) \<or> (16 \<le> n \<and> n < 24) \<or> (24 \<le> n \<and> n < 32)
       \<or> (32 \<le> n \<and> n < 40) \<or> (40 \<le> n \<and> n < 48) \<or> (48 \<le> n \<and> n < 56)
       \<or> (56 \<le> n \<and> n < 64)) \<and> bit v n)"
    by (cases "bit v n") (simp_all add: byte_of_def bit_or_iff bit_byte_piece bit_byte_low)
  also have "\<dots> = bit v n"
    using n by (cases "bit v n") (simp_all, linarith)
  finally show "bit (ucast (byte_of v 0) OR push_bit 8 (ucast (byte_of v 1))
     OR push_bit 16 (ucast (byte_of v 2))
     OR push_bit 24 (ucast (byte_of v 3)) OR push_bit 32 (ucast (byte_of v 4))
     OR push_bit 40 (ucast (byte_of v 5)) OR push_bit 48 (ucast (byte_of v 6))
     OR push_bit 56 (ucast (byte_of v 7)) :: 64 word) n = bit v n" .
qed

text \<open>Two 8-byte fields that are 8 apart in both directions (modulo \<open>2 ^ 64\<close>) share
  no byte.\<close>

lemma sep_shift:
  fixes a b k :: "64 word"
  assumes "8 \<le> b - a" "8 \<le> a - b" "k < 8"
  shows "\<not> (b + k - a < 8)"
proof -
  define d where "d = b - a"
  have e: "b + k - a = d + k" "a - b = 0 - d"
    by (simp_all add: d_def)
  have d8: "8 \<le> unat d"
    using assms(1) by (simp add: d_def word_le_nat_alt)
  have "unat (0 - d) = (if unat d \<le> unat (0 :: 64 word) then unat (0 :: 64 word) - unat d
      else unat (0 :: 64 word) + 2 ^ size (0 :: 64 word) - unat d)"
    by (rule unat_sub_if_size)
  moreover have "8 \<le> unat (0 - d)"
    using assms(2) unfolding e by (simp only: word_le_nat_alt) simp
  ultimately have dm: "unat d \<le> 2 ^ 64 - 8"
    using d8 by (simp add: word_size split: if_splits)
  have k: "unat k < 8"
    using assms(3) by (simp add: word_less_nat_alt)
  have "unat (d + k) = unat d + unat k"
    using dm k by (simp add: unat_plus_if')
  then show ?thesis
    unfolding e using d8 by (simp add: word_less_nat_alt)
qed

lemma load64_store64_same: "load64 (store64 m a v) a = v"
proof -
  have "load64 (store64 m a v) a =
     ucast (byte_of v 0) OR push_bit 8 (ucast (byte_of v 1)) OR push_bit 16 (ucast (byte_of v 2))
     OR push_bit 24 (ucast (byte_of v 3)) OR push_bit 32 (ucast (byte_of v 4))
     OR push_bit 40 (ucast (byte_of v 5)) OR push_bit 48 (ucast (byte_of v 6))
     OR push_bit 56 (ucast (byte_of v 7))"
    by (simp add: load64_def store64_def)
  then show ?thesis
    by (simp only: byte_recombine)
qed

lemma load64_store64_sep:
  assumes "8 \<le> b - a" "8 \<le> a - b"
  shows "load64 (store64 m a v) b = load64 m b"
proof -
  have "\<not> (b + k - a < 8)" if "k < 8" for k
    using sep_shift [OF assms that] .
  from this [of 0] this [of 1] this [of 2] this [of 3] this [of 4] this [of 5] this [of 6]
    this [of 7]
  show ?thesis
    by (simp add: load64_def store64_def)
qed

lemma load64_store8_sep:
  assumes "8 \<le> a - b"
  shows "load64 (store8 m a v) b = load64 m b"
proof -
  have "b + k \<noteq> a" if "k < 8" for k
  proof
    assume "b + k = a"
    then have "a - b = k"
      by (simp add: algebra_simps)
    with assms that show False
      by simp
  qed
  from this [of 0] this [of 1] this [of 2] this [of 3] this [of 4] this [of 5] this [of 6]
    this [of 7]
  show ?thesis
    by (simp add: load64_def store8_def)
qed

lemma load8_store8: "load8 (store8 m a v) b = (if b = a then v else load8 m b)"
  by (simp add: load8_def store8_def)

lemma load8_store64:
  "load8 (store64 m a v) b = (if b - a < 8 then byte_of v (unat (b - a)) else load8 m b)"
  by (simp add: load8_def store64_def)

lemma load8_zero: "load8 (\<lambda>_. 0) a = 0"
  by (simp add: load8_def)

lemma load64_zero: "load64 (\<lambda>_. 0) a = 0"
  by (simp add: load64_def)

lemma load8_memset: "load8 (memset m p v n) b = (if b - p < n then v else load8 m b)"
  by (simp add: load8_def memset_def)

lemma load8_memcpy:
  "load8 (memcpy m dst src n) b = (if b - dst < n then load8 m (src + (b - dst)) else load8 m b)"
  by (simp add: load8_def memcpy_def)

subsection \<open>Running the model on a concrete heap\<close>

text \<open>
  Rewriting with the equations below computes a call on a concrete state.  The congruence
  rules keep the simplifier out of the continuation of a bind, of a \<open>let\<close> and of a
  \<open>case\<close> until the value it waits for is known.
\<close>

lemma bind_weak_cong: "x = y \<Longrightarrow> Option.bind x f = Option.bind y f"
  by simp

lemma Let_weak_cong: "x = y \<Longrightarrow> Let x f = Let y f"
  by simp

lemmas run_simps =
  HMMmalloc_def HMMcalloc_def HMMrealloc_def HMMfree_def merge_freed_def
  HMMget_free_chunk.simps
  HMMget_free_block_def scan_walk.simps HMMremove_free_block_def remove_walk.simps
  unlink_block_def
  HMMadd_free_block_def HMMis_block_found_def split_chunk_def append_chunk_def
  num_allocated_bytes_def sbrk_def coalesce_walk.simps HMMcoalesce_def shrink_walk.simps
  release_excess_def empty_heap_def traverse.simps HMMtraverse_def
  NULL_def ALIGNMENT_def ALLOCATED_BYTES_def MULTIPLES_MAX_def ULONG_MAX_def header_size_def
  is_added_def is_free_def chunk_size_def chunk_prev_def chunk_next_def next_free_def
  set_is_added_def set_is_free_def set_size_def set_prev_def set_next_def set_next_free_def
  load64_store64_same load64_store64_sep load64_store8_sep load8_store8 load8_store64
  load8_zero load64_zero load8_memset load8_memcpy byte_of_def Let_def
  returned_def observe_def added_at_def free_at_def size_at_def next_at_def prev_at_def
  bucket_def byte_at_def indexed_total_def fresh_def

lemmas run_congs =
  bind_weak_cong Let_weak_cong prod.case_cong_weak option.case_cong_weak if_weak_cong

section \<open>Headers that do not overlap\<close>

text \<open>
  Two chunk headers are apart when each starts at least 40 bytes after the other, modulo
  \<open>2 ^ 64\<close>.  A store into a field of one then leaves every field of the other as it was.
\<close>

lemma apart_sym: "apart c d \<Longrightarrow> apart d c"
  by (simp add: apart_def)

lemma apart_off:
  fixes c d p q :: "64 word"
  assumes "apart c d" "p \<le> 32" "q \<le> 32"
  shows "8 \<le> (c + p) - (d + q)"
proof -
  define e where "e = c - d"
  have e: "(c + p) - (d + q) = e + p - q" "d - c = 0 - e"
    by (simp_all add: e_def)
  have lo: "40 \<le> unat e"
    using assms(1) by (simp add: apart_def e_def word_le_nat_alt)
  have "unat (0 - e) = (if unat e \<le> unat (0 :: 64 word) then unat (0 :: 64 word) - unat e
      else unat (0 :: 64 word) + 2 ^ size (0 :: 64 word) - unat e)"
    by (rule unat_sub_if_size)
  moreover have "40 \<le> unat (0 - e)"
    using assms(1) unfolding apart_def e by (simp only: word_le_nat_alt) simp
  ultimately have hi: "unat e \<le> 2 ^ 64 - 40"
    using lo by (simp add: word_size split: if_splits)
  have p: "unat p \<le> 32" and q: "unat q \<le> 32"
    using assms(2,3) by (simp_all add: word_le_nat_alt)
  have ep: "unat (e + p) = unat e + unat p"
    using hi p by (simp add: unat_plus_if')
  have "q \<le> e + p"
    using ep lo q by (simp add: word_le_nat_alt)
  then have "unat (e + p - q) = unat e + unat p - unat q"
    using ep by (simp add: unat_sub)
  then show ?thesis
    unfolding e using lo q by (simp add: word_le_nat_alt)
qed

lemma apart_load64_store64:
  assumes "apart c d" "p \<le> 32" "q \<le> 32"
  shows "load64 (store64 m (c + p) v) (d + q) = load64 m (d + q)"
  using apart_off [OF assms] apart_off [OF apart_sym [OF assms(1)] assms(3) assms(2)]
  by (simp add: load64_store64_sep)

lemma apart_load64_store8:
  assumes "apart c d" "p \<le> 32" "q \<le> 32"
  shows "load64 (store8 m (c + p) v) (d + q) = load64 m (d + q)"
  using apart_off [OF assms] by (simp add: load64_store8_sep)

lemma apart_load8_store64:
  assumes "apart c d" "p \<le> 32" "q \<le> 32"
  shows "load8 (store64 m (c + p) v) (d + q) = load8 m (d + q)"
  using apart_off [OF apart_sym [OF assms(1)] assms(3) assms(2)]
  by (simp add: load8_store64 leD)

lemma apart_load8_store8:
  assumes "apart c d" "p \<le> 32" "q \<le> 32"
  shows "load8 (store8 m (c + p) v) (d + q) = load8 m (d + q)"
proof -
  have "d + q \<noteq> c + p"
  proof
    assume "d + q = c + p"
    then have "(c + p) - (d + q) = 0"
      by simp
    with apart_off [OF assms] show False
      by simp
  qed
  then show ?thesis
    by (simp add: load8_store8)
qed

lemmas apart_loads =
  apart_load64_store64 apart_load64_store8 apart_load8_store64 apart_load8_store8
  apart_load64_store8 [where p = 0, simplified]
  apart_load8_store64 [where q = 0, simplified]
  apart_load8_store8 [where p = 0, simplified]
  apart_load8_store8 [where q = 0, simplified]
  apart_load8_store8 [where p = 0 and q = 0, simplified]

lemmas field_defs =
  is_added_def is_free_def chunk_size_def chunk_prev_def chunk_next_def next_free_def
  set_is_added_def set_is_free_def set_size_def set_prev_def set_next_def set_next_free_def

lemma set_is_added_apart [simp]:
  "apart c d \<Longrightarrow>
     is_added (set_is_added c v m) d = is_added m d
     \<and> is_free (set_is_added c v m) d = is_free m d
     \<and> chunk_size (set_is_added c v m) d = chunk_size m d
     \<and> chunk_prev (set_is_added c v m) d = chunk_prev m d
     \<and> chunk_next (set_is_added c v m) d = chunk_next m d
     \<and> next_free (set_is_added c v m) d = next_free m d"
  by (simp add: field_defs apart_loads)

lemma set_is_free_apart [simp]:
  "apart c d \<Longrightarrow>
     is_added (set_is_free c v m) d = is_added m d
     \<and> is_free (set_is_free c v m) d = is_free m d
     \<and> chunk_size (set_is_free c v m) d = chunk_size m d
     \<and> chunk_prev (set_is_free c v m) d = chunk_prev m d
     \<and> chunk_next (set_is_free c v m) d = chunk_next m d
     \<and> next_free (set_is_free c v m) d = next_free m d"
  by (simp add: field_defs apart_loads)

lemma set_size_apart [simp]:
  "apart c d \<Longrightarrow>
     is_added (set_size c v m) d = is_added m d
     \<and> is_free (set_size c v m) d = is_free m d
     \<and> chunk_size (set_size c v m) d = chunk_size m d
     \<and> chunk_prev (set_size c v m) d = chunk_prev m d
     \<and> chunk_next (set_size c v m) d = chunk_next m d
     \<and> next_free (set_size c v m) d = next_free m d"
  by (simp add: field_defs apart_loads)

lemma set_prev_apart [simp]:
  "apart c d \<Longrightarrow>
     is_added (set_prev c v m) d = is_added m d
     \<and> is_free (set_prev c v m) d = is_free m d
     \<and> chunk_size (set_prev c v m) d = chunk_size m d
     \<and> chunk_prev (set_prev c v m) d = chunk_prev m d
     \<and> chunk_next (set_prev c v m) d = chunk_next m d
     \<and> next_free (set_prev c v m) d = next_free m d"
  by (simp add: field_defs apart_loads)

lemma set_next_apart [simp]:
  "apart c d \<Longrightarrow>
     is_added (set_next c v m) d = is_added m d
     \<and> is_free (set_next c v m) d = is_free m d
     \<and> chunk_size (set_next c v m) d = chunk_size m d
     \<and> chunk_prev (set_next c v m) d = chunk_prev m d
     \<and> chunk_next (set_next c v m) d = chunk_next m d
     \<and> next_free (set_next c v m) d = next_free m d"
  by (simp add: field_defs apart_loads)

lemma set_next_free_apart [simp]:
  "apart c d \<Longrightarrow>
     is_added (set_next_free c v m) d = is_added m d
     \<and> is_free (set_next_free c v m) d = is_free m d
     \<and> chunk_size (set_next_free c v m) d = chunk_size m d
     \<and> chunk_prev (set_next_free c v m) d = chunk_prev m d
     \<and> chunk_next (set_next_free c v m) d = chunk_next m d
     \<and> next_free (set_next_free c v m) d = next_free m d"
  by (simp add: field_defs apart_loads)

lemma set_is_added_same [simp]:
  "is_added (set_is_added c v m) c = v
   \<and> is_free (set_is_added c v m) c = is_free m c
   \<and> chunk_size (set_is_added c v m) c = chunk_size m c
   \<and> chunk_prev (set_is_added c v m) c = chunk_prev m c
   \<and> chunk_next (set_is_added c v m) c = chunk_next m c
   \<and> next_free (set_is_added c v m) c = next_free m c"
  by (simp add: field_defs load64_store64_same load64_store64_sep load64_store8_sep
      load8_store8 load8_store64)

lemma set_is_free_same [simp]:
  "is_added (set_is_free c v m) c = is_added m c
   \<and> is_free (set_is_free c v m) c = v
   \<and> chunk_size (set_is_free c v m) c = chunk_size m c
   \<and> chunk_prev (set_is_free c v m) c = chunk_prev m c
   \<and> chunk_next (set_is_free c v m) c = chunk_next m c
   \<and> next_free (set_is_free c v m) c = next_free m c"
  by (simp add: field_defs load64_store64_same load64_store64_sep load64_store8_sep
      load8_store8 load8_store64)

lemma set_size_same [simp]:
  "is_added (set_size c v m) c = is_added m c
   \<and> is_free (set_size c v m) c = is_free m c
   \<and> chunk_size (set_size c v m) c = v
   \<and> chunk_prev (set_size c v m) c = chunk_prev m c
   \<and> chunk_next (set_size c v m) c = chunk_next m c
   \<and> next_free (set_size c v m) c = next_free m c"
  by (simp add: field_defs load64_store64_same load64_store64_sep load64_store8_sep
      load8_store8 load8_store64)

lemma set_prev_same [simp]:
  "is_added (set_prev c v m) c = is_added m c
   \<and> is_free (set_prev c v m) c = is_free m c
   \<and> chunk_size (set_prev c v m) c = chunk_size m c
   \<and> chunk_prev (set_prev c v m) c = v
   \<and> chunk_next (set_prev c v m) c = chunk_next m c
   \<and> next_free (set_prev c v m) c = next_free m c"
  by (simp add: field_defs load64_store64_same load64_store64_sep load64_store8_sep
      load8_store8 load8_store64)

lemma set_next_same [simp]:
  "is_added (set_next c v m) c = is_added m c
   \<and> is_free (set_next c v m) c = is_free m c
   \<and> chunk_size (set_next c v m) c = chunk_size m c
   \<and> chunk_prev (set_next c v m) c = chunk_prev m c
   \<and> chunk_next (set_next c v m) c = v
   \<and> next_free (set_next c v m) c = next_free m c"
  by (simp add: field_defs load64_store64_same load64_store64_sep load64_store8_sep
      load8_store8 load8_store64)

lemma set_next_free_same [simp]:
  "is_added (set_next_free c v m) c = is_added m c
   \<and> is_free (set_next_free c v m) c = is_free m c
   \<and> chunk_size (set_next_free c v m) c = chunk_size m c
   \<and> chunk_prev (set_next_free c v m) c = chunk_prev m c
   \<and> chunk_next (set_next_free c v m) c = chunk_next m c
   \<and> next_free (set_next_free c v m) c = v"
  by (simp add: field_defs load64_store64_same load64_store64_sep load64_store8_sep
      load8_store8 load8_store64)

section \<open>Lists threaded through the heap\<close>

lemma index_okD:
  assumes "index_ok H L s" "i < MULTIPLES_MAX"
  shows "chain (next_free (mem s)) (block_freq s i) (L i) NULL"
    and "set (L i) \<subseteq> H"
    and "\<And>x. x \<in> set (L i) \<Longrightarrow> bucket_of (mem s) x = i"
  using assms by (auto simp: index_ok_def)

lemma chain_cong:
  "(\<And>x. x \<in> set xs \<Longrightarrow> nx' x = nx x) \<Longrightarrow> chain nx' p xs t = chain nx p xs t"
  by (induction xs arbitrary: p) auto

lemma chain_append:
  "chain nx p (xs @ ys) t = (\<exists>q. chain nx p xs q \<and> chain nx q ys t)"
  by (induction xs arbitrary: p) auto

lemma chain_unique:
  "chain nx p xs NULL \<Longrightarrow> chain nx p ys NULL \<Longrightarrow> xs = ys"
proof (induction xs arbitrary: p ys)
  case Nil
  then show ?case by (cases ys) auto
next
  case (Cons x xs)
  then show ?case by (cases ys) auto
qed

lemma chain_head_fresh:
  assumes "chain nx (nx x) xs NULL"
  shows "x \<notin> set xs"
proof
  assume "x \<in> set xs"
  then obtain as bs where xs: "xs = as @ x # bs"
    by (auto simp: in_set_conv_decomp)
  with assms have "chain nx (nx x) bs NULL"
    by (auto simp: chain_append)
  with assms have "xs = bs"
    by (rule chain_unique)
  with xs show False
    by simp
qed

lemma chain_distinct: "chain nx p xs NULL \<Longrightarrow> distinct xs"
  by (induction xs arbitrary: p) (auto dest: chain_head_fresh)

lemma chain_not_null: "chain nx p xs t \<Longrightarrow> NULL \<notin> set xs"
  by (induction xs arbitrary: p) auto

text \<open>The walk of \<^verbatim>\<open>HMMremove_free_block\<close> along a bucket.\<close>

lemma remove_walk_absent:
  assumes "chain (next_free (mem s)) cur xs NULL" "b \<notin> set xs"
  shows "remove_walk b idx cur prv s = Some s"
  using assms
proof (induction xs arbitrary: cur prv)
  case Nil
  then show ?case
    by (simp add: remove_walk.simps)
next
  case (Cons x xs)
  then have "remove_walk b idx (next_free (mem s) x) x s = Some s"
    by simp
  with Cons.prems show ?case
    by (subst remove_walk.simps) auto
qed

lemma remove_walk_present:
  assumes "chain (next_free (mem s)) cur (ys @ b # zs) NULL" "b \<notin> set ys"
  shows "remove_walk b idx cur prv s
         = Some (unlink_block b idx (if ys = [] then prv else last ys) s)"
  using assms
proof (induction ys arbitrary: cur prv)
  case Nil
  then show ?case
    by (subst remove_walk.simps) auto
next
  case (Cons y ys)
  then have "remove_walk b idx (next_free (mem s) y) y s
         = Some (unlink_block b idx (if ys = [] then y else last ys) s)"
    by simp
  with Cons.prems show ?case
    by (subst remove_walk.simps) auto
qed

section \<open>Taking a block out of its bucket\<close>

lemma pairwise_apartD:
  "pairwise_apart H \<Longrightarrow> x \<in> H \<Longrightarrow> y \<in> H \<Longrightarrow> x \<noteq> y \<Longrightarrow> apart x y"
  by (simp add: pairwise_apart_def)

lemma unlink_block_globals:
  "head (unlink_block b idx p s) = head s"
  "tail (unlink_block b idx p s) = tail s"
  "brk (unlink_block b idx p s) = brk s"
  "brk_min (unlink_block b idx p s) = brk_min s"
  "brk_max (unlink_block b idx p s) = brk_max s"
  by (simp_all add: unlink_block_def Let_def)

lemma unlink_block_fields:
  assumes pa: "pairwise_apart H" and b: "b \<in> H" and p: "p \<in> H \<or> p = NULL"
    and n: "NULL \<notin> H" and x: "x \<in> H"
  shows "is_free (mem (unlink_block b idx p s)) x = is_free (mem s) x"
    and "chunk_size (mem (unlink_block b idx p s)) x = chunk_size (mem s) x"
    and "chunk_prev (mem (unlink_block b idx p s)) x = chunk_prev (mem s) x"
    and "chunk_next (mem (unlink_block b idx p s)) x = chunk_next (mem s) x"
    and "next_free (mem (unlink_block b idx p s)) x
          = (if x = p then next_free (mem s) b else next_free (mem s) x)"
    and "is_added (mem (unlink_block b idx p s)) x
          = (if x = b then 0 else is_added (mem s) x)"
proof -
  have bx: "x \<noteq> b \<Longrightarrow> apart b x"
    using pa b x by (auto dest: pairwise_apartD)
  have px: "p \<noteq> NULL \<Longrightarrow> x \<noteq> p \<Longrightarrow> apart p x"
    using pa p x by (auto dest: pairwise_apartD)
  have pb: "p \<noteq> NULL \<Longrightarrow> b \<noteq> p \<Longrightarrow> apart p b"
    using pa p b by (auto dest: pairwise_apartD)
  have xn: "x \<noteq> NULL"
    using n x by auto
  show "is_free (mem (unlink_block b idx p s)) x = is_free (mem s) x"
    using bx px by (cases "x = b"; cases "x = p") (auto simp: unlink_block_def Let_def)
  show "chunk_size (mem (unlink_block b idx p s)) x = chunk_size (mem s) x"
    using bx px by (cases "x = b"; cases "x = p") (auto simp: unlink_block_def Let_def)
  show "chunk_prev (mem (unlink_block b idx p s)) x = chunk_prev (mem s) x"
    using bx px by (cases "x = b"; cases "x = p") (auto simp: unlink_block_def Let_def)
  show "chunk_next (mem (unlink_block b idx p s)) x = chunk_next (mem s) x"
    using bx px by (cases "x = b"; cases "x = p") (auto simp: unlink_block_def Let_def)
  show "next_free (mem (unlink_block b idx p s)) x
          = (if x = p then next_free (mem s) b else next_free (mem s) x)"
    using bx px pb xn by (cases "x = b"; cases "x = p") (auto simp: unlink_block_def Let_def)
  show "is_added (mem (unlink_block b idx p s)) x
          = (if x = b then 0 else is_added (mem s) x)"
    using bx px pb xn by (cases "x = b"; cases "x = p") (auto simp: unlink_block_def Let_def)
qed

lemma bucket_of_unlink:
  assumes "pairwise_apart H" "b \<in> H" "p \<in> H \<or> p = NULL" "NULL \<notin> H" "x \<in> H"
  shows "bucket_of (mem (unlink_block b idx p s)) x = bucket_of (mem s) x"
  using unlink_block_fields(2) [OF assms] by (simp add: bucket_of_def)

lemma unlink_block_freq:
  "block_freq (unlink_block b idx p s) =
     (if p \<noteq> NULL then block_freq s
      else (block_freq s)(idx := next_free (set_is_added b 0 (mem s)) (block_freq s idx)))"
  by (simp add: unlink_block_def Let_def)

lemma unlink_block_index:
  assumes ok: "index_ok H L s" and pa: "pairwise_apart H" and n: "NULL \<notin> H"
    and i: "idx < MULTIPLES_MAX" and Li: "L idx = ys @ b # zs"
  shows "index_ok H (L(idx := ys @ zs))
           (unlink_block b idx (if ys = [] then NULL else last ys) s)"
proof -
  define p where "p = (if ys = [] then NULL else last ys)"
  define s' where "s' = unlink_block b idx p s"
  let ?nf = "next_free (mem s)"
  let ?nf' = "next_free (mem s')"
  from index_okD [OF ok i] Li have ch: "chain ?nf (block_freq s idx) (ys @ b # zs) NULL"
    and sub: "set (ys @ b # zs) \<subseteq> H"
    and cls: "\<forall>x\<in>set (ys @ b # zs). bucket_of (mem s) x = idx"
    by auto
  from ch have dist: "distinct (ys @ b # zs)"
    by (rule chain_distinct)
  from sub have bH: "b \<in> H"
    by simp
  from sub have "set ys \<subseteq> H"
    by simp
  then have lH: "ys \<noteq> [] \<Longrightarrow> last ys \<in> H"
    using last_in_set by blast
  then have pH: "p \<in> H \<or> p = NULL"
    by (auto simp: p_def)
  have "ys \<noteq> [] \<Longrightarrow> bucket_of (mem s) (last ys) = idx"
    using cls last_in_set [of ys] by (simp del: last_in_set)
  then have pcls: "p \<noteq> NULL \<Longrightarrow> bucket_of (mem s) p = idx"
    by (auto simp: p_def split: if_splits)
  have nf': "\<And>x. x \<in> H \<Longrightarrow> ?nf' x = (if x = p then ?nf b else ?nf x)"
    unfolding s'_def by (rule unlink_block_fields(5) [OF pa bH pH n])
  have sz': "\<And>x. x \<in> H \<Longrightarrow> bucket_of (mem s') x = bucket_of (mem s) x"
    unfolding s'_def by (rule bucket_of_unlink [OF pa bH pH n])
  have same: "\<And>x. x \<in> H \<Longrightarrow> x \<noteq> p \<Longrightarrow> ?nf' x = ?nf x"
    by (simp add: nf')
  have bucket: "chain ?nf' (block_freq s' idx) (ys @ zs) NULL"
  proof (cases "ys = []")
    case True
    with ch have hd: "block_freq s idx = b" and rest: "chain ?nf (?nf b) zs NULL"
      by auto
    have pn: "p = NULL"
      using True by (simp add: p_def)
    have "block_freq s' idx = ?nf b"
      unfolding s'_def using pn hd by (simp add: unlink_block_freq)
    moreover have "chain ?nf' (?nf b) zs NULL = chain ?nf (?nf b) zs NULL"
    proof (rule chain_cong)
      fix x assume "x \<in> set zs"
      with sub n pn have "x \<in> H" "x \<noteq> p"
        by auto
      then show "?nf' x = ?nf x"
        by (rule same)
    qed
    ultimately show ?thesis
      using True rest by simp
  next
    case False
    then obtain ys' where ys: "ys = ys' @ [p]"
      unfolding p_def by (metis append_butlast_last_id)
    from lH [OF False] n False have pnn: "p \<noteq> NULL"
      by (auto simp: p_def)
    from ch ys obtain q where q1: "chain ?nf (block_freq s idx) ys' q"
      and q2: "chain ?nf q (p # b # zs) NULL"
      by (auto simp: chain_append)
    then have qp: "q = p" and nfp: "?nf p = b" and rest: "chain ?nf (?nf b) zs NULL"
      by auto
    from dist ys have pys: "p \<notin> set ys'" and pzs: "p \<notin> set zs"
      by auto
    have pin: "p \<in> H"
      using pH pnn by simp
    have a: "chain ?nf' (block_freq s idx) ys' p"
    proof -
      have "chain ?nf' (block_freq s idx) ys' p = chain ?nf (block_freq s idx) ys' p"
      proof (rule chain_cong)
        fix x assume "x \<in> set ys'"
        with sub ys pys have "x \<in> H" "x \<noteq> p"
          by auto
        then show "?nf' x = ?nf x"
          by (rule same)
      qed
      with q1 qp show ?thesis
        by simp
    qed
    have b: "chain ?nf' (?nf b) zs NULL"
    proof -
      have "chain ?nf' (?nf b) zs NULL = chain ?nf (?nf b) zs NULL"
      proof (rule chain_cong)
        fix x assume "x \<in> set zs"
        with sub pzs have "x \<in> H" "x \<noteq> p"
          by auto
        then show "?nf' x = ?nf x"
          by (rule same)
      qed
      with rest show ?thesis
        by simp
    qed
    have "?nf' p = ?nf b"
      using pin by (simp add: nf')
    with a b pnn have "chain ?nf' (block_freq s idx) (ys' @ p # zs) NULL"
      by (auto simp: chain_append)
    moreover have "block_freq s' idx = block_freq s idx"
      unfolding s'_def using pnn by (simp add: unlink_block_freq)
    ultimately show ?thesis
      using ys by simp
  qed
  have other: "chain ?nf' (block_freq s' j) (L j) NULL" if j: "j < MULTIPLES_MAX" "j \<noteq> idx" for j
  proof -
    from index_okD [OF ok j(1)] have cj: "chain ?nf (block_freq s j) (L j) NULL"
      and sj: "set (L j) \<subseteq> H"
      and clj: "\<forall>x\<in>set (L j). bucket_of (mem s) x = j"
      by auto
    have "chain ?nf' (block_freq s j) (L j) NULL = chain ?nf (block_freq s j) (L j) NULL"
    proof (rule chain_cong)
      fix x assume x: "x \<in> set (L j)"
      with sj have xH: "x \<in> H"
        by auto
      have "x \<noteq> p"
      proof
        assume "x = p"
        with xH n have "p \<noteq> NULL"
          by auto
        from pcls [OF this] clj x \<open>x = p\<close> j show False
          by auto
      qed
      with xH show "?nf' x = ?nf x"
        by (rule same)
    qed
    moreover have "block_freq s' j = block_freq s j"
      unfolding s'_def using j by (simp add: unlink_block_freq)
    ultimately show ?thesis
      using cj by simp
  qed
  have "index_ok H (L(idx := ys @ zs)) s'"
    unfolding index_ok_def
  proof (intro allI impI)
    fix j assume j: "j < MULTIPLES_MAX"
    show "chain ?nf' (block_freq s' j) ((L(idx := ys @ zs)) j) NULL
        \<and> set ((L(idx := ys @ zs)) j) \<subseteq> H
        \<and> (\<forall>x\<in>set ((L(idx := ys @ zs)) j). bucket_of (mem s') x = j)"
    proof (cases "j = idx")
      case True
      with bucket sub cls sz' show ?thesis
        by auto
    next
      case False
      from index_okD [OF ok j] have "set (L j) \<subseteq> H" "\<forall>x\<in>set (L j). bucket_of (mem s) x = j"
        by auto
      with other [OF j False] False sz' show ?thesis
        by auto
    qed
  qed
  then show ?thesis
    by (simp add: s'_def p_def)
qed

lemma same_chunks_refl: "same_chunks H s s"
  by (simp add: same_chunks_def)

lemma same_chunks_trans: "same_chunks H s s' \<Longrightarrow> same_chunks H s' s'' \<Longrightarrow> same_chunks H s s''"
  by (simp add: same_chunks_def)

lemma index_ok_cong:
  assumes "\<And>i. i < MULTIPLES_MAX \<Longrightarrow> L' i = L i"
  shows "index_ok H L' s = index_ok H L s"
  using assms by (simp add: index_ok_def)

lemma unlink_block_same:
  assumes "pairwise_apart H" "b \<in> H" "p \<in> H \<or> p = NULL" "NULL \<notin> H"
  shows "same_chunks H s (unlink_block b idx p s)"
  unfolding same_chunks_def
  using unlink_block_fields(1-4) [OF assms] by (simp add: unlink_block_globals)

lemma HMMremove_free_block_index:
  assumes ok: "index_ok H L s" and pa: "pairwise_apart H" and n: "NULL \<notin> H" and b: "b \<in> H"
  shows "\<exists>s'. HMMremove_free_block b s = Some s'
           \<and> index_ok H (\<lambda>i. remove1 b (L i)) s'
           \<and> same_chunks H s s'
           \<and> (\<forall>x\<in>H. x \<noteq> b \<longrightarrow> is_added (mem s') x = is_added (mem s) x)
           \<and> ((\<exists>i. i < MULTIPLES_MAX \<and> b \<in> set (L i)) \<longrightarrow> is_added (mem s') b = 0)
           \<and> ((\<forall>i. i < MULTIPLES_MAX \<longrightarrow> b \<notin> set (L i)) \<longrightarrow> s' = s)"
proof -
  define idx where "idx = bucket_of (mem s) b"
  have bn: "b \<noteq> NULL"
    using b n by auto
  have only: "b \<notin> set (L i)" if "i < MULTIPLES_MAX" "i \<noteq> idx" for i
    using index_okD(3) [OF ok that(1), of b] that(2) by (auto simp: idx_def)
  have call: "HMMremove_free_block b s =
      (if idx < MULTIPLES_MAX then remove_walk b idx (block_freq s idx) NULL s else Some s)"
    using bn by (simp add: HMMremove_free_block_def Let_def idx_def bucket_of_def)
  show ?thesis
  proof (cases "idx < MULTIPLES_MAX \<and> b \<in> set (L idx)")
    case False
    then have absent: "\<And>i. i < MULTIPLES_MAX \<Longrightarrow> b \<notin> set (L i)"
      using only by blast
    have "HMMremove_free_block b s = Some s"
    proof (cases "idx < MULTIPLES_MAX")
      case True
      with absent have "b \<notin> set (L idx)"
        by simp
      from remove_walk_absent [OF index_okD(1) [OF ok True] this] call True show ?thesis
        by simp
    next
      case False
      with call show ?thesis
        by simp
    qed
    moreover have "index_ok H (\<lambda>i. remove1 b (L i)) s"
      using ok absent by (subst index_ok_cong [where L = L]) (simp_all add: remove1_idem)
    ultimately show ?thesis
      using absent by (auto simp: same_chunks_refl)
  next
    case True
    then have i: "idx < MULTIPLES_MAX" and mem: "b \<in> set (L idx)"
      by simp_all
    from mem obtain ys zs where Li: "L idx = ys @ b # zs" and bys: "b \<notin> set ys"
      by (auto dest: split_list_first)
    define p where "p = (if ys = [] then NULL else last ys)"
    define s' where "s' = unlink_block b idx p s"
    have "set ys \<subseteq> H"
      using index_okD(2) [OF ok i] Li by simp
    then have "ys \<noteq> [] \<Longrightarrow> last ys \<in> H"
      using last_in_set by blast
    then have pH: "p \<in> H \<or> p = NULL"
      by (auto simp: p_def)
    have ch: "chain (next_free (mem s)) (block_freq s idx) (ys @ b # zs) NULL"
      using index_okD(1) [OF ok i] Li by simp
    have "remove_walk b idx (block_freq s idx) NULL s = Some s'"
      using remove_walk_present [OF ch bys, of idx NULL] by (simp add: s'_def p_def)
    with call i have r: "HMMremove_free_block b s = Some s'"
      by simp
    have "index_ok H (L(idx := ys @ zs)) s'"
      using unlink_block_index [OF ok pa n i Li] by (simp add: s'_def p_def)
    moreover have "(\<lambda>i. remove1 b (L i)) j = (L(idx := ys @ zs)) j" if "j < MULTIPLES_MAX" for j
      using only [OF that] Li bys by (auto simp: remove1_append remove1_idem)
    ultimately have ix: "index_ok H (\<lambda>i. remove1 b (L i)) s'"
      by (subst index_ok_cong [where L = "L(idx := ys @ zs)"]) simp_all
    have sc: "same_chunks H s s'"
      unfolding s'_def by (rule unlink_block_same [OF pa b pH n])
    have ad: "\<forall>x\<in>H. is_added (mem s') x = (if x = b then 0 else is_added (mem s) x)"
      unfolding s'_def using unlink_block_fields(6) [OF pa b pH n] by blast
    from r ix sc ad b True show ?thesis
      by auto
  qed
qed

lemma HMMremove_free_block_flags:
  assumes ok: "index_ok H L s" and pa: "pairwise_apart H" and n: "NULL \<notin> H" and b: "b \<in> H"
    and fl: "flags_ok H L s" and rm: "HMMremove_free_block b s = Some s'"
  shows "flags_ok H (\<lambda>i. remove1 b (L i)) s'"
proof -
  from HMMremove_free_block_index [OF ok pa n b] rm have
    oth: "\<forall>x\<in>H. x \<noteq> b \<longrightarrow> is_added (mem s') x = is_added (mem s) x"
    and clr: "(\<exists>i. i < MULTIPLES_MAX \<and> b \<in> set (L i)) \<longrightarrow> is_added (mem s') b = 0"
    and nop: "(\<forall>i. i < MULTIPLES_MAX \<longrightarrow> b \<notin> set (L i)) \<longrightarrow> s' = s"
    by auto
  have dist: "distinct (L i)" if "i < MULTIPLES_MAX" for i
    using index_okD(1) [OF ok that] by (rule chain_distinct)
  have gone: "b \<notin> set (remove1 b (L i))" if "i < MULTIPLES_MAX" for i
    using dist [OF that] by simp
  have zero: "is_added (mem s') b = 0"
  proof (cases "\<exists>i. i < MULTIPLES_MAX \<and> b \<in> set (L i)")
    case True
    with clr show ?thesis
      by simp
  next
    case False
    with nop have "s' = s"
      by simp
    moreover from fl b False have "is_added (mem s) b = 0"
      by (auto simp: flags_ok_def)
    ultimately show ?thesis
      by simp
  qed
  show ?thesis
    unfolding flags_ok_def
  proof
    fix x assume x: "x \<in> H"
    show "(is_added (mem s') x \<noteq> 0) = (\<exists>i. i < MULTIPLES_MAX \<and> x \<in> set (remove1 b (L i)))"
    proof (cases "x = b")
      case True
      with zero gone show ?thesis
        by auto
    next
      case False
      with oth x have "is_added (mem s') x = is_added (mem s) x"
        by simp
      moreover from fl x have "(is_added (mem s) x \<noteq> 0) = (\<exists>i. i < MULTIPLES_MAX \<and> x \<in> set (L i))"
        by (simp add: flags_ok_def)
      moreover have "x \<in> set (remove1 b (L i)) = (x \<in> set (L i))" for i
        using False by simp
      ultimately show ?thesis
        by simp
    qed
  qed
qed

section \<open>Coalescing a run of free chunks\<close>

lemma same_chunks_chain:
  assumes "same_chunks H s s'" "set cs \<subseteq> H"
  shows "chain (chunk_next (mem s')) p cs t = chain (chunk_next (mem s)) p cs t"
  using assms by (intro chain_cong) (auto simp: same_chunks_def)

lemma coalesce_walk_run:
  assumes "chain (chunk_next (mem s)) cur cs t"
    and "\<forall>c\<in>set cs. is_free (mem s) c = 1"
    and "t = NULL \<or> is_free (mem s) t \<noteq> 1"
    and "set cs \<subseteq> H" and "t \<in> H \<or> t = NULL"
    and "index_ok H L s" and pa: "pairwise_apart H" and n: "NULL \<notin> H"
    and "lc \<noteq> NULL"
  shows "\<exists>s' L'. coalesce_walk cur lc tot s
            = Some (t, lc, tot + sum_list (map (\<lambda>c. chunk_size (mem s) c + header_size) cs), s')
          \<and> same_chunks H s s' \<and> index_ok H L' s'
          \<and> (\<forall>i. i < MULTIPLES_MAX \<longrightarrow> set (L' i) = set (L i) - set cs)
          \<and> (flags_ok H L s \<longrightarrow> flags_ok H L' s')"
  using assms(1-6,9)
proof (induction cs arbitrary: cur tot s L)
  case Nil
  then have "coalesce_walk cur lc tot s = Some (t, lc, tot, s)"
    by (subst coalesce_walk.simps) auto
  with Nil.prems show ?case
    by (auto simp: same_chunks_refl)
next
  case (Cons c cs)
  from Cons.prems have cur: "cur = c" and cn: "c \<noteq> NULL" and cf: "is_free (mem s) c = 1"
    and cH: "c \<in> H" and rest: "chain (chunk_next (mem s)) (chunk_next (mem s) c) cs t"
    by auto
  from HMMremove_free_block_index [OF Cons.prems(6) pa n cH] obtain s1 where
    rm: "HMMremove_free_block c s = Some s1"
    and ix1: "index_ok H (\<lambda>i. remove1 c (L i)) s1"
    and sc1: "same_chunks H s s1"
    by blast
  have nx: "chunk_next (mem s1) c = chunk_next (mem s) c"
    using sc1 cH by (simp add: same_chunks_def)
  have sub: "set cs \<subseteq> H"
    using Cons.prems(4) by simp
  have a1: "chain (chunk_next (mem s1)) (chunk_next (mem s1) c) cs t"
    using rest nx same_chunks_chain [OF sc1 sub] by simp
  have a2: "\<forall>c\<in>set cs. is_free (mem s1) c = 1"
    using Cons.prems(2) sc1 sub by (auto simp: same_chunks_def)
  have a3: "t = NULL \<or> is_free (mem s1) t \<noteq> 1"
    using Cons.prems(3,5) sc1 by (auto simp: same_chunks_def)
  from Cons.IH [OF a1 a2 a3 sub Cons.prems(5) ix1 Cons.prems(7),
      of "tot + (chunk_size (mem s) c + header_size)"]
  obtain s' L' where
    w: "coalesce_walk (chunk_next (mem s1) c) lc (tot + (chunk_size (mem s) c + header_size)) s1
        = Some (t, lc, tot + (chunk_size (mem s) c + header_size)
              + sum_list (map (\<lambda>c. chunk_size (mem s1) c + header_size) cs), s')"
    and sc': "same_chunks H s1 s'" and ix': "index_ok H L' s'"
    and st: "\<forall>i. i < MULTIPLES_MAX \<longrightarrow> set (L' i) = set (remove1 c (L i)) - set cs"
    and fl': "flags_ok H (\<lambda>i. remove1 c (L i)) s1 \<longrightarrow> flags_ok H L' s'"
    by blast
  have fl1: "flags_ok H L s \<Longrightarrow> flags_ok H (\<lambda>i. remove1 c (L i)) s1"
    using HMMremove_free_block_flags [OF Cons.prems(6) pa n cH _ rm] by blast
  have sizes: "map (\<lambda>c. chunk_size (mem s1) c + header_size) cs
             = map (\<lambda>c. chunk_size (mem s) c + header_size) cs"
    using sc1 sub by (auto simp: same_chunks_def)
  have "coalesce_walk cur lc tot s
        = Some (t, lc, tot + sum_list (map (\<lambda>c. chunk_size (mem s) c + header_size) (c # cs)), s')"
    using cur cn cf rm w Cons.prems(7) sizes
    by (subst coalesce_walk.simps) (simp add: Let_def add.assoc)
  moreover have "same_chunks H s s'"
    using sc1 sc' by (rule same_chunks_trans)
  moreover have "\<forall>i. i < MULTIPLES_MAX \<longrightarrow> set (L' i) = set (L i) - set (c # cs)"
  proof (intro allI impI)
    fix i :: size_t assume i: "i < MULTIPLES_MAX"
    have "distinct (L i)"
      using index_okD(1) [OF Cons.prems(6) i] by (rule chain_distinct)
    then have "set (remove1 c (L i)) = set (L i) - {c}"
      by simp
    with st i show "set (L' i) = set (L i) - set (c # cs)"
      by auto
  qed
  ultimately show ?case
    using ix' fl' fl1 by blast
qed

lemma index_ok_frame:
  assumes "index_ok H L s" and "block_freq s' = block_freq s"
    and "\<And>x. x \<in> H \<Longrightarrow> next_free (mem s') x = next_free (mem s) x"
    and "\<And>i x. i < MULTIPLES_MAX \<Longrightarrow> x \<in> set (L i) \<Longrightarrow> chunk_size (mem s') x = chunk_size (mem s) x"
  shows "index_ok H L s'"
  unfolding index_ok_def
proof (intro allI impI)
  fix i :: size_t assume i: "i < MULTIPLES_MAX"
  note d = index_okD [OF assms(1) i]
  have "chain (next_free (mem s')) (block_freq s i) (L i) NULL
      = chain (next_free (mem s)) (block_freq s i) (L i) NULL"
    using d(2) assms(3) by (intro chain_cong) auto
  with d assms(2) assms(4) [OF i]
  show "chain (next_free (mem s')) (block_freq s' i) (L i) NULL \<and> set (L i) \<subseteq> H
      \<and> (\<forall>x\<in>set (L i). bucket_of (mem s') x = i)"
    by (auto simp: bucket_of_def)
qed

lemma unat_sum_list:
  fixes f :: "'a \<Rightarrow> 64 word"
  shows "sum_list (map (\<lambda>x. unat (f x)) xs) < 2 ^ 64
    \<Longrightarrow> unat (sum_list (map f xs)) = sum_list (map (\<lambda>x. unat (f x)) xs)"
proof (induction xs)
  case Nil
  then show ?case by simp
next
  case (Cons x xs)
  then have "unat (sum_list (map f xs)) = sum_list (map (\<lambda>x. unat (f x)) xs)"
    by simp
  with Cons.prems show ?case
    by (simp add: unat_plus_if')
qed

lemma unat_size_plus_header:
  assumes "unat (chunk_size m c) + unat header_size < 2 ^ 64"
  shows "unat (chunk_size m c + header_size) = unat (chunk_size m c) + unat header_size"
  using assms by (simp add: unat_plus_if')

section \<open>Putting a block into its bucket\<close>

lemma HMMadd_free_block_globals:
  "head (HMMadd_free_block b s) = head s"
  "tail (HMMadd_free_block b s) = tail s"
  "brk (HMMadd_free_block b s) = brk s"
  "brk_min (HMMadd_free_block b s) = brk_min s"
  "brk_max (HMMadd_free_block b s) = brk_max s"
  by (simp_all add: HMMadd_free_block_def HMMis_block_found_def Let_def)

text \<open>What \<^verbatim>\<open>HMMadd_free_block\<close> does, said once: it acts when the block is not \<open>NULL\<close>, its
  size class is in range and its flag is clear.\<close>

lemma HMMadd_free_block_eq:
  "HMMadd_free_block b s =
     (if b \<noteq> NULL \<and> bucket_of (mem s) b < MULTIPLES_MAX \<and> is_added (mem s) b = 0
      then s\<lparr>current_free_size := current_free_size s + chunk_size (mem s) b,
             mem := set_next_free b (block_freq s (bucket_of (mem s) b))
                      (set_is_added b 1 (mem s)),
             block_freq := (block_freq s)(bucket_of (mem s) b := b)\<rparr>
      else s)"
  by (auto simp: HMMadd_free_block_def HMMis_block_found_def Let_def bucket_of_def NULL_def)

lemma HMMadd_free_block_fields:
  assumes pa: "pairwise_apart H" and b: "b \<in> H" and x: "x \<in> H"
  shows "is_free (mem (HMMadd_free_block b s)) x = is_free (mem s) x"
    and "chunk_size (mem (HMMadd_free_block b s)) x = chunk_size (mem s) x"
    and "chunk_prev (mem (HMMadd_free_block b s)) x = chunk_prev (mem s) x"
    and "chunk_next (mem (HMMadd_free_block b s)) x = chunk_next (mem s) x"
    and "x \<noteq> b \<Longrightarrow> next_free (mem (HMMadd_free_block b s)) x = next_free (mem s) x"
    and "x \<noteq> b \<Longrightarrow> is_added (mem (HMMadd_free_block b s)) x = is_added (mem s) x"
proof -
  have bx: "x \<noteq> b \<Longrightarrow> apart b x"
    using pa b x by (auto dest: pairwise_apartD)
  show "is_free (mem (HMMadd_free_block b s)) x = is_free (mem s) x"
    using bx by (cases "x = b") (auto simp: HMMadd_free_block_eq)
  show "chunk_size (mem (HMMadd_free_block b s)) x = chunk_size (mem s) x"
    using bx by (cases "x = b") (auto simp: HMMadd_free_block_eq)
  show "chunk_prev (mem (HMMadd_free_block b s)) x = chunk_prev (mem s) x"
    using bx by (cases "x = b") (auto simp: HMMadd_free_block_eq)
  show "chunk_next (mem (HMMadd_free_block b s)) x = chunk_next (mem s) x"
    using bx by (cases "x = b") (auto simp: HMMadd_free_block_eq)
  show "x \<noteq> b \<Longrightarrow> next_free (mem (HMMadd_free_block b s)) x = next_free (mem s) x"
    using bx by (auto simp: HMMadd_free_block_eq)
  show "x \<noteq> b \<Longrightarrow> is_added (mem (HMMadd_free_block b s)) x = is_added (mem s) x"
    using bx by (auto simp: HMMadd_free_block_eq)
qed

lemma HMMadd_free_block_same:
  assumes "pairwise_apart H" "b \<in> H"
  shows "same_chunks H s (HMMadd_free_block b s)"
  unfolding same_chunks_def
  using HMMadd_free_block_fields(1-4) [OF assms] by (simp add: HMMadd_free_block_globals)

lemma HMMadd_free_block_index:
  assumes ok: "index_ok H L s" and pa: "pairwise_apart H" and n: "NULL \<notin> H" and b: "b \<in> H"
    and fl: "flags_ok H L s"
  defines "idx \<equiv> bucket_of (mem s) b"
  defines "L' \<equiv> (if idx < MULTIPLES_MAX \<and> is_added (mem s) b = 0 then L(idx := b # L idx) else L)"
  shows "index_ok H L' (HMMadd_free_block b s)" and "flags_ok H L' (HMMadd_free_block b s)"
proof -
  let ?s' = "HMMadd_free_block b s"
  have bn: "b \<noteq> NULL"
    using b n by auto
  have "index_ok H L' ?s' \<and> flags_ok H L' ?s'"
  proof (cases "idx < MULTIPLES_MAX \<and> is_added (mem s) b = 0")
    case False
    then have "?s' = s" "L' = L"
      by (auto simp: HMMadd_free_block_eq idx_def L'_def)
    with ok fl show ?thesis
      by simp
  next
    case True
    then have i: "idx < MULTIPLES_MAX" and z: "is_added (mem s) b = 0" and L': "L' = L(idx := b # L idx)"
      by (simp_all add: L'_def)
    have absent: "b \<notin> set (L j)" if "j < MULTIPLES_MAX" for j
      using fl b z that by (auto simp: flags_ok_def)
    have st: "?s' = s\<lparr>current_free_size := current_free_size s + chunk_size (mem s) b,
             mem := set_next_free b (block_freq s idx) (set_is_added b 1 (mem s)),
             block_freq := (block_freq s)(idx := b)\<rparr>"
      using True bn by (simp add: HMMadd_free_block_eq idx_def)
    have nfb: "next_free (mem ?s') b = block_freq s idx"
      by (simp add: st)
    have adb: "is_added (mem ?s') b = 1"
      by (simp add: st)
    note fr = HMMadd_free_block_fields [OF pa b]
    have cls: "bucket_of (mem ?s') x = bucket_of (mem s) x" if "x \<in> H" for x
      using fr(2) [OF that] by (simp add: bucket_of_def)
    have "index_ok H L' ?s'"
      unfolding index_ok_def
    proof (intro allI impI)
      fix j :: size_t assume j: "j < MULTIPLES_MAX"
      note d = index_okD [OF ok j]
      have same: "chain (next_free (mem ?s')) q (L j) NULL = chain (next_free (mem s)) q (L j) NULL" for q
      proof (rule chain_cong)
        fix x assume "x \<in> set (L j)"
        with d(2) absent [OF j] have "x \<in> H" "x \<noteq> b"
          by auto
        then show "next_free (mem ?s') x = next_free (mem s) x"
          by (rule fr(5))
      qed
      show "chain (next_free (mem ?s')) (block_freq ?s' j) (L' j) NULL \<and> set (L' j) \<subseteq> H
          \<and> (\<forall>x\<in>set (L' j). bucket_of (mem ?s') x = j)"
      proof (cases "j = idx")
        case True
        have "block_freq ?s' j = b"
          using True by (simp add: st)
        moreover have "chain (next_free (mem ?s')) (block_freq s idx) (L idx) NULL"
          using same [of "block_freq s idx"] d(1) True by simp
        ultimately have "chain (next_free (mem ?s')) (block_freq ?s' j) (b # L idx) NULL"
          using bn nfb by simp
        moreover have "\<forall>x\<in>set (b # L idx). bucket_of (mem ?s') x = idx"
          using d(2,3) True b cls by (auto simp: idx_def)
        ultimately show ?thesis
          using True L' d(2) b by auto
      next
        case False
        have "block_freq ?s' j = block_freq s j"
          using False by (simp add: st)
        with same [of "block_freq s j"] d False L' cls show ?thesis
          by auto
      qed
    qed
    moreover have "flags_ok H L' ?s'"
      unfolding flags_ok_def
    proof
      fix x assume x: "x \<in> H"
      show "(is_added (mem ?s') x \<noteq> 0) = (\<exists>j. j < MULTIPLES_MAX \<and> x \<in> set (L' j))"
      proof (cases "x = b")
        case True
        with adb i L' show ?thesis
          by auto
      next
        case False
        from fr(6) [OF x False] have "is_added (mem ?s') x = is_added (mem s) x" .
        moreover have "(x \<in> set (L' j)) = (x \<in> set (L j))" for j
          using False L' by auto
        ultimately show ?thesis
          using fl x by (simp add: flags_ok_def)
      qed
    qed
    ultimately show ?thesis
      by simp
  qed
  then show "index_ok H L' ?s'" and "flags_ok H L' ?s'"
    by simp_all
qed


lemma HMMadd_free_block_covers:
  assumes ok: "index_ok H L s" and pa: "pairwise_apart H" and n: "NULL \<notin> H" and b: "b \<in> H"
    and fl: "flags_ok H L s"
    and ba: "is_added (mem s) b = 0" and bf: "is_free (mem s) b = 1"
    and oth: "\<And>x. x \<in> G \<Longrightarrow> x \<noteq> b \<Longrightarrow> is_free (mem s) x = 1
                \<Longrightarrow> bucket_of (mem s) x < MULTIPLES_MAX \<Longrightarrow> is_added (mem s) x \<noteq> 0"
    and G: "G \<subseteq> H"
  shows "\<exists>L'. index_ok H L' (HMMadd_free_block b s) \<and> flags_ok H L' (HMMadd_free_block b s)
      \<and> free_indexed G (HMMadd_free_block b s)
      \<and> is_free (mem (HMMadd_free_block b s)) b = 1
      \<and> chunk_size (mem (HMMadd_free_block b s)) b = chunk_size (mem s) b
      \<and> (is_added (mem (HMMadd_free_block b s)) b \<noteq> 0
           \<longleftrightarrow> bucket_of (mem (HMMadd_free_block b s)) b < MULTIPLES_MAX)"
proof -
  let ?s' = "HMMadd_free_block b s"
  note fr = HMMadd_free_block_fields [OF pa b]
  note ix = HMMadd_free_block_index [OF ok pa n b fl]
  have bn: "b \<noteq> NULL"
    using b n by auto
  have cls: "bucket_of (mem ?s') x = bucket_of (mem s) x" if "x \<in> H" for x
    using fr(2) [OF that] by (simp add: bucket_of_def)
  have flag: "is_added (mem ?s') b \<noteq> 0 \<longleftrightarrow> bucket_of (mem s) b < MULTIPLES_MAX"
    using ba bn by (simp add: HMMadd_free_block_eq)
  have "free_indexed G ?s'"
    unfolding free_indexed_def
  proof (intro ballI impI)
    fix x assume x: "x \<in> G" and h: "is_free (mem ?s') x = 1 \<and> bucket_of (mem ?s') x < MULTIPLES_MAX"
    from x G have xH: "x \<in> H"
      by auto
    show "is_added (mem ?s') x \<noteq> 0"
    proof (cases "x = b")
      case True
      with h flag cls [OF b] show ?thesis
        by simp
    next
      case False
      from h fr(1) [OF xH] cls [OF xH] have "is_free (mem s) x = 1" "bucket_of (mem s) x < MULTIPLES_MAX"
        by simp_all
      from oth [OF x False this] fr(6) [OF xH False] show ?thesis
        by simp
    qed
  qed
  with ix fr(1,2) [OF b] bf flag cls [OF b] show ?thesis
    by auto
qed

lemma mark_free_fields:
  assumes pa: "pairwise_apart H" and c: "c \<in> H" and x: "x \<in> H"
  shows "is_free (set_is_free c 1 m) x = (if x = c then 1 else is_free m x)"
    and "is_added (set_is_free c 1 m) x = is_added m x"
    and "chunk_size (set_is_free c 1 m) x = chunk_size m x"
    and "chunk_prev (set_is_free c 1 m) x = chunk_prev m x"
    and "chunk_next (set_is_free c 1 m) x = chunk_next m x"
    and "next_free (set_is_free c 1 m) x = next_free m x"
proof -
  have cx: "x \<noteq> c \<Longrightarrow> apart c x"
    using pa c x by (auto dest: pairwise_apartD)
  show "is_free (set_is_free c 1 m) x = (if x = c then 1 else is_free m x)"
    using cx by (cases "x = c") auto
  show "is_added (set_is_free c 1 m) x = is_added m x"
    using cx by (cases "x = c") auto
  show "chunk_size (set_is_free c 1 m) x = chunk_size m x"
    using cx by (cases "x = c") auto
  show "chunk_prev (set_is_free c 1 m) x = chunk_prev m x"
    using cx by (cases "x = c") auto
  show "chunk_next (set_is_free c 1 m) x = chunk_next m x"
    using cx by (cases "x = c") auto
  show "next_free (set_is_free c 1 m) x = next_free m x"
    using cx by (cases "x = c") auto
qed

lemma release_excess_small:
  "current_free_size s < ALLOCATED_BYTES \<Longrightarrow> release_excess s = Some s"
  by (simp add: release_excess_def not_le [symmetric])

section \<open>Writes that stay inside chunk headers\<close>




























section \<open>Zero-allocate rejects a product that overflows\<close>

lemma unat_ULONG_MAX: "unat ULONG_MAX = 2 ^ 64 - 1"
  by (simp add: ULONG_MAX_def unsigned_minus_1_eq_mask mask_eq_exp_minus_1)

text \<open>
  Claim C8.  Whenever the product of \<open>nmemb\<close> and \<open>size0\<close> does not fit a 64-bit word,
  \<^verbatim>\<open>HMMcalloc\<close> returns \<open>NULL\<close> and the state it returns is the state it was given: memory,
  chunk list, index, accumulator and break are all untouched.
\<close>

theorem calloc_overflow_rejected:
  "2 ^ 64 \<le> unat nmemb * unat size0 \<Longrightarrow> HMMcalloc nmemb size0 s = Some (NULL, s)"
proof -
  assume ov: "2 ^ 64 \<le> unat nmemb * unat size0"
  then have nz: "size0 \<noteq> 0"
    by (auto simp: unat_eq_0 intro: ccontr)
  have "unat (ULONG_MAX div size0) = (2 ^ 64 - 1) div unat size0"
    by (simp add: unat_div unat_ULONG_MAX)
  also have "\<dots> < unat nmemb"
  proof (rule ccontr)
    assume "\<not> (2 ^ 64 - 1) div unat size0 < unat nmemb"
    then have "unat nmemb \<le> (2 ^ 64 - 1) div unat size0"
      by simp
    then have "unat nmemb * unat size0 \<le> ((2 ^ 64 - 1) div unat size0) * unat size0"
      by (rule mult_le_mono1)
    also have "\<dots> \<le> 2 ^ 64 - 1"
      by simp
    finally show False
      using ov by simp
  qed
  finally have "ULONG_MAX div size0 < nmemb"
    by (simp add: word_less_nat_alt)
  with nz show ?thesis
    by (simp add: HMMcalloc_def)
qed

text \<open>The scenario of the specification: \<open>ULONG_MAX\<close> elements of two bytes.\<close>

theorem calloc_overflow_rejected_witness:
  "2 ^ 64 \<le> unat (ULONG_MAX :: size_t) * unat (2 :: size_t)
   \<and> HMMcalloc ULONG_MAX 2 (empty_heap 0x1000000 0x5000000)
       = Some (NULL, empty_heap 0x1000000 0x5000000)"
proof -
  have h: "2 ^ 64 \<le> unat (ULONG_MAX :: size_t) * unat (2 :: size_t)"
    by (simp add: unat_ULONG_MAX)
  from h calloc_overflow_rejected [OF h] show ?thesis
    by simp
qed

section \<open>How far the break moves\<close>


















section \<open>One allocation, then its release\<close>

lemma alloc40_run:
  "let r = run [Malloc 40] (fresh 0x1000000 0x5000000)
   in returned r = Some [0x1000028] \<and> observe (size_at 0x1000000) r = Some 40
      \<and> observe (free_at 0x1000000) r = Some 0"
  by (simp add: run_simps cong: run_congs)

lemma alloc40_free_run:
  "let r = run [Malloc 40, Free 0] (fresh 0x1000000 0x5000000)
   in returned r = Some [0x1000028]
      \<and> observe head r = Some 0x1000000 \<and> observe tail r = Some 0x1000000
      \<and> observe (free_at 0x1000000) r = Some 1
      \<and> observe (added_at 0x1000000) r = Some 1
      \<and> observe (size_at 0x1000000) r = Some 8388568
      \<and> observe (bucket 1048570) r = Some 0x1000000
      \<and> observe (bucket 5) r = Some NULL
      \<and> observe (bucket 4) r = Some NULL
      \<and> observe HMMtraverse r = Some (Some [0x1000000])"
  by (simp add: run_simps cong: run_congs)

text \<open>
  Claim C7, as amended.  From the empty heap, \<^verbatim>\<open>malloc(40)\<close> returns an 8-aligned payload
  whose chunk holds 40 bytes (40 is a multiple of 8 already).  After \<^verbatim>\<open>free\<close> the chunk has
  absorbed the free remainder of the 8 MiB arena: it is the only chunk, \<open>head = tail\<close>, it is
  free, its payload is 8 MiB - 40 bytes and it is the head of bucket
  \<open>(8388568 div 8) - 1 = 1048570\<close>; buckets 4 and 5 are empty.
\<close>

theorem alloc40_then_free:
  "returned (run [Malloc 40] (fresh 0x1000000 0x5000000)) = Some [0x1000028]
   \<and> (0x1000028 :: addr) AND 7 = 0
   \<and> observe (size_at 0x1000000) (run [Malloc 40] (fresh 0x1000000 0x5000000)) = Some 40
   \<and> observe HMMtraverse (run [Malloc 40, Free 0] (fresh 0x1000000 0x5000000))
       = Some (Some [0x1000000])
   \<and> observe head (run [Malloc 40, Free 0] (fresh 0x1000000 0x5000000)) = Some 0x1000000
   \<and> observe tail (run [Malloc 40, Free 0] (fresh 0x1000000 0x5000000)) = Some 0x1000000
   \<and> observe (free_at 0x1000000) (run [Malloc 40, Free 0] (fresh 0x1000000 0x5000000)) = Some 1
   \<and> observe (size_at 0x1000000) (run [Malloc 40, Free 0] (fresh 0x1000000 0x5000000))
       = Some (8388608 - 40)
   \<and> observe (bucket 1048570) (run [Malloc 40, Free 0] (fresh 0x1000000 0x5000000))
       = Some 0x1000000
   \<and> observe (bucket 4) (run [Malloc 40, Free 0] (fresh 0x1000000 0x5000000)) = Some NULL
   \<and> observe (bucket 5) (run [Malloc 40, Free 0] (fresh 0x1000000 0x5000000)) = Some NULL"
  using alloc40_run alloc40_free_run
  by (simp add: Let_def)

text \<open>Bucket 5, where the specification expects the freed chunk, is empty.\<close>

theorem alloc40_then_free_not_bucket5:
  "returned (run [Malloc 40, Free 0] (fresh 0x1000000 0x5000000)) = Some [0x1000028]
   \<and> observe (bucket 5) (run [Malloc 40, Free 0] (fresh 0x1000000 0x5000000)) = Some NULL"
  using alloc40_free_run
  by (simp add: Let_def)

section \<open>Requests near the top of \<^verbatim>\<open>size_t\<close>\<close>

lemma alloc_max_run:
  "let r = run [Malloc ULONG_MAX] (fresh 0x1000000 0x5000000)
   in returned r = Some [0x1000028] \<and> observe (size_at 0x1000000) r = Some 0
      \<and> observe (free_at 0x1000000) r = Some 0
      \<and> observe HMMtraverse r = Some (Some [0x1000000, 0x1000028])"
  by (simp add: run_simps cong: run_congs)

text \<open>
  Claim C1 at \<open>n = ULONG_MAX\<close>.  The rounding of line 394 wraps to 0, and \<^verbatim>\<open>malloc\<close> returns
  a payload pointer, 40 bytes after a chunk header that is marked allocated, whose payload
  size is 0: the next chunk header starts at the returned address.
\<close>

theorem malloc_of_max_returns_empty_payload:
  "returned (run [Malloc ULONG_MAX] (fresh 0x1000000 0x5000000)) = Some [0x1000000 + header_size]
   \<and> observe (free_at 0x1000000) (run [Malloc ULONG_MAX] (fresh 0x1000000 0x5000000)) = Some 0
   \<and> observe (size_at 0x1000000) (run [Malloc ULONG_MAX] (fresh 0x1000000 0x5000000)) = Some 0
   \<and> observe HMMtraverse (run [Malloc ULONG_MAX] (fresh 0x1000000 0x5000000))
       = Some (Some [0x1000000, 0x1000000 + header_size])"
  using alloc_max_run
  by (simp add: Let_def header_size_def)

lemma poke_run:
  "let r = run [Malloc 16, Poke 0 9 0xAB] (fresh 0x1000000 0x5000000)
   in returned r = Some [0x1000028] \<and> observe (byte_at 0x1000031) r = Some 0xAB
      \<and> observe (size_at 0x1000000) r = Some 16"
  by (simp add: run_simps cong: run_congs)

lemma realloc_max_run:
  "let r = run [Malloc 16, Poke 0 9 0xAB, Realloc 0 ULONG_MAX] (fresh 0x1000000 0x5000000)
   in returned r = Some [0x1000028, 0x1000028] \<and> observe (byte_at 0x1000031) r = Some 1
      \<and> observe (size_at 0x1000000) r = Some 8"
  by (simp add: run_simps cong: run_congs)

text \<open>
  Claim C6 at \<open>m = ULONG_MAX\<close>.  A client holds 16 bytes and has stored \<open>0xAB\<close> in byte 9.
  The rounding of line 436 wraps to 0, so \<^verbatim>\<open>realloc\<close> frees the block and returns
  \<^verbatim>\<open>HMMmalloc(ALIGNMENT)\<close>: a non-null pointer to 8 bytes (here the old address), and byte 9,
  now the \<^verbatim>\<open>is_free\<close> flag of the chunk split off behind it, reads 1.
\<close>

theorem realloc_of_max_loses_payload:
  "returned (run [Malloc 16, Poke 0 9 0xAB] (fresh 0x1000000 0x5000000)) = Some [0x1000028]
   \<and> observe (byte_at (0x1000028 + 9)) (run [Malloc 16, Poke 0 9 0xAB] (fresh 0x1000000 0x5000000))
       = Some 0xAB
   \<and> returned (run [Malloc 16, Poke 0 9 0xAB, Realloc 0 ULONG_MAX] (fresh 0x1000000 0x5000000))
       = Some [0x1000028, 0x1000028]
   \<and> observe (byte_at (0x1000028 + 9))
         (run [Malloc 16, Poke 0 9 0xAB, Realloc 0 ULONG_MAX] (fresh 0x1000000 0x5000000))
       = Some 1
   \<and> observe (size_at 0x1000000)
         (run [Malloc 16, Poke 0 9 0xAB, Realloc 0 ULONG_MAX] (fresh 0x1000000 0x5000000))
       = Some 8"
  using poke_run realloc_max_run
  by (simp add: Let_def)

section \<open>A header laid over stale bytes\<close>

lemma stale_flag_run:
  "let r = run [Malloc 8, Free 0, Malloc 16] (fresh 0x1000000 0x5000000)
   in returned r = Some [0x1000028, 0x1000028]
      \<and> observe current_free_size r = Some 0
      \<and> observe HMMtraverse r = Some (Some [0x1000000, 0x1000038])
      \<and> observe indexed_total r = Some (Some 8388512)
      \<and> observe (added_at 0x1000038) r = Some 0xA8
      \<and> observe (free_at 0x1000038) r = Some 1
      \<and> observe (size_at 0x1000038) r = Some 8388512
      \<and> observe (bucket 1048563) r = Some NULL"
  by (simp add: run_simps cong: run_congs)

text \<open>
  Claim C3 after \<^verbatim>\<open>malloc(8)\<close>, \<^verbatim>\<open>free\<close>, \<^verbatim>\<open>malloc(16)\<close> from the empty heap.  The split of
  the second \<^verbatim>\<open>malloc\<close> puts the header of the remainder 56 bytes into the arena, where the
  \<^verbatim>\<open>size\<close> field of the first remainder (8 MiB - 88, low byte \<open>0xA8\<close>) still lies.  The
  split never writes \<^verbatim>\<open>is_added\<close>, so \<^verbatim>\<open>HMMadd_free_block\<close> finds the flag set and returns:
  the accumulator is 0, and the chunks whose flag is set hold 8388512 bytes.
\<close>

theorem accumulator_misses_flagged_chunk:
  "observe HMMtraverse (run [Malloc 8, Free 0, Malloc 16] (fresh 0x1000000 0x5000000))
       = Some (Some [0x1000000, 0x1000038])
   \<and> observe (added_at 0x1000038) (run [Malloc 8, Free 0, Malloc 16] (fresh 0x1000000 0x5000000))
       = Some 0xA8
   \<and> observe (bucket 1048563) (run [Malloc 8, Free 0, Malloc 16] (fresh 0x1000000 0x5000000))
       = Some NULL
   \<and> observe current_free_size (run [Malloc 8, Free 0, Malloc 16] (fresh 0x1000000 0x5000000))
       = Some 0
   \<and> observe indexed_total (run [Malloc 8, Free 0, Malloc 16] (fresh 0x1000000 0x5000000))
       = Some (Some 8388512)"
  using stale_flag_run
  by (simp add: Let_def)

section \<open>Requests whose grow amount wraps\<close>

text \<open>
  For \<open>sz = 2 ^ 64 - ALLOCATED_BYTES - header_size\<close> the sum of line 271 wraps to 0 and the
  grow amount is 0.  \<^verbatim>\<open>sbrk(0)\<close> succeeds, the free tail gains nothing, and the recursive call
  meets the state it started from.
\<close>

lemma spinning_never_returns:
  assumes "HMMget_free_chunk sz s = Some y"
  shows "\<not> (sz = 0xFFFFFFFFFF7FFFD8 \<and> spinning s)"
proof (rule HMMget_free_chunk.raw_induct
    [where P = "\<lambda>sz s y. \<not> (sz = 0xFFFFFFFFFF7FFFD8 \<and> spinning s)", OF _ assms], goal_cases)
  case (1 f sz s y)
  note IH = 1(1) and body = 1(2)
  show ?case
  proof
    assume a: "sz = 0xFFFFFFFFFF7FFFD8 \<and> spinning s"
    show False
    proof (cases "load8 (mem s) 0x1000030 = 0")
      case True
      define s' where "s' = s\<lparr>block_freq := (block_freq s)(1048564 := 0),
               mem := store64 (store64
                    (store8 (store64 (store8 (mem s) 16777264 1) 16777296 0) 16777264 0)
                    16777272 8388520) 16777288 0\<rparr>"
      have "f 0xFFFFFFFFFF7FFFD8 s' = Some y"
        using body a True unfolding spinning_def s'_def
        by (simp add: run_simps cong: run_congs)
      moreover have "spinning s'"
        using a True unfolding spinning_def s'_def
        by (simp add: run_simps cong: run_congs)
      ultimately show False
        using IH by blast
    next
      case False
      define s' where "s' = s\<lparr>current_free_size := current_free_size s - 8388520,
              block_freq := (block_freq s)(1048564 := 0),
              mem := store64 (store64 (store8 (mem s) 16777264 0) 16777272 8388520)
                 16777288 0\<rparr>"
      have "f 0xFFFFFFFFFF7FFFD8 s' = Some y"
        using body a False unfolding spinning_def s'_def
        by (simp add: run_simps cong: run_congs)
      moreover have "spinning s'"
        using a False unfolding spinning_def s'_def
        by (simp add: run_simps cong: run_congs)
      ultimately show False
        using IH by blast
    qed
  qed
qed

lemma spinning_malloc: "spinning s \<Longrightarrow> HMMmalloc 0xFFFFFFFFFF7FFFD8 s = None"
proof -
  assume sp: "spinning s"
  have "HMMget_free_chunk 0xFFFFFFFFFF7FFFD8 s = None"
  proof (cases "HMMget_free_chunk 0xFFFFFFFFFF7FFFD8 s")
    case None
    then show ?thesis .
  next
    case (Some y)
    from spinning_never_returns [OF Some] sp show ?thesis
      by simp
  qed
  then show ?thesis
    by (simp add: HMMmalloc_def ALIGNMENT_def)
qed

lemma first_malloc_spinning:
  "case serve (Malloc 8) (fresh 0x1000000 0x5000000) of
     None \<Rightarrow> False | Some c \<Rightarrow> spinning (snd c)"
  by (simp add: run_simps spinning_def cong: run_congs)

lemma alloc_top_run:
  "let r = run [Malloc (- 8)] (fresh 0x1000000 0x2800000)
   in returned r = Some [NULL] \<and> observe brk r = Some 0x2800000
      \<and> observe HMMtraverse r = Some (Some [0x1000000])
      \<and> observe (size_at 0x1000000) r = Some 25165784"
  by (simp add: run_simps cong: run_congs)

text \<open>
  Claim C10 at two request sizes.  After \<^verbatim>\<open>malloc(8)\<close> on the empty heap, \<^verbatim>\<open>malloc\<close> of
  \<open>2 ^ 64 - ALLOCATED_BYTES - header_size\<close> bytes does not return.  And a request of
  \<open>2 ^ 64 - 8\<close> bytes on an empty heap with room for three arenas reaches the grow step on
  every level of the recursion: the break ends 24 MiB higher, at the limit, the tail chunk
  spans all of it, and the call returns \<open>NULL\<close>.
\<close>

theorem get_free_chunk_diverges:
  "run [Malloc 8, Malloc 0xFFFFFFFFFF7FFFD8] (fresh 0x1000000 0x5000000) = None
   \<and> (0xFFFFFFFFFF7FFFD8 :: size_t) = - (ALLOCATED_BYTES + header_size)
   \<and> returned (run [Malloc (- 8)] (fresh 0x1000000 0x2800000)) = Some [NULL]
   \<and> observe brk (run [Malloc (- 8)] (fresh 0x1000000 0x2800000))
       = Some (0x1000000 + 3 * ALLOCATED_BYTES)
   \<and> observe (size_at 0x1000000) (run [Malloc (- 8)] (fresh 0x1000000 0x2800000))
       = Some (3 * ALLOCATED_BYTES - header_size)"
proof -
  from first_malloc_spinning obtain ps s where
    c: "serve (Malloc 8) (fresh 0x1000000 0x5000000) = Some (ps, s)" and sp: "spinning s"
    by (auto split: option.splits)
  from spinning_malloc [OF sp] have "run [Malloc 0xFFFFFFFFFF7FFFD8] (ps, s) = None"
    by simp
  with c have a: "run [Malloc 8, Malloc 0xFFFFFFFFFF7FFFD8] (fresh 0x1000000 0x5000000) = None"
    by simp
  have b: "(0xFFFFFFFFFF7FFFD8 :: size_t) = - (ALLOCATED_BYTES + header_size)"
    by (simp add: ALLOCATED_BYTES_def header_size_def)
  have d: "returned (run [Malloc (- 8)] (fresh 0x1000000 0x2800000)) = Some [NULL]
   \<and> observe brk (run [Malloc (- 8)] (fresh 0x1000000 0x2800000))
       = Some (0x1000000 + 3 * ALLOCATED_BYTES)
   \<and> observe (size_at 0x1000000) (run [Malloc (- 8)] (fresh 0x1000000 0x2800000))
       = Some (3 * ALLOCATED_BYTES - header_size)"
    using alloc_top_run
    by (simp add: Let_def ALLOCATED_BYTES_def header_size_def)
  from a b d show ?thesis
    by (intro conjI) (erule conjunct1 conjunct2 | assumption | simp only:)+
qed

section \<open>What coalescing leaves behind\<close>

lemma sum_list_plus_const:
  fixes f :: "'a \<Rightarrow> nat"
  shows "sum_list (map (\<lambda>x. f x + k) xs) = sum_list (map f xs) + length xs * k"
  by (induction xs) auto

lemma HMMcoalesce_run:
  assumes run: "chain (chunk_next (mem s)) start cs t"
    and k: "2 \<le> length cs"
    and free: "\<forall>c\<in>set cs. is_free (mem s) c = 1"
    and stop: "t = NULL \<or> is_free (mem s) t \<noteq> 1"
    and fits: "sum_list (map (\<lambda>c. unat (chunk_size (mem s) c) + unat header_size) cs) < 2 ^ 64"
    and sub: "set cs \<subseteq> H" and tH: "t \<in> H \<or> t = NULL"
    and pa: "pairwise_apart H" and n: "NULL \<notin> H"
    and ix: "index_ok H L s"
  shows "\<exists>s' L'. HMMcoalesce start s = Some s'
      \<and> unat (chunk_size (mem s') start)
          = sum_list (map (\<lambda>c. unat (chunk_size (mem s) c)) cs)
            + (length cs - 1) * unat header_size
      \<and> chunk_next (mem s') start = t
      \<and> (t \<noteq> NULL \<longrightarrow> chunk_prev (mem s') t = start \<and> tail s' = tail s)
      \<and> (t = NULL \<longrightarrow> tail s' = start)
      \<and> index_ok H L' s'
      \<and> (\<forall>i. i < MULTIPLES_MAX \<longrightarrow> set (L' i) = set (L i) - set cs)
      \<and> (flags_ok H L s \<longrightarrow> flags_ok H L' s')
      \<and> (\<forall>x\<in>H. is_free (mem s') x = is_free (mem s) x)
      \<and> (\<forall>x\<in>H. x \<noteq> start \<longrightarrow> chunk_size (mem s') x = chunk_size (mem s) x)
      \<and> (\<forall>x\<in>H. x \<noteq> t \<longrightarrow> chunk_prev (mem s') x = chunk_prev (mem s) x)
      \<and> head s' = head s \<and> brk s' = brk s \<and> brk_min s' = brk_min s \<and> brk_max s' = brk_max s"
proof -
  let ?g = "\<lambda>c. unat (chunk_size (mem s) c) + unat header_size"
  from run k obtain cs' where cs: "cs = start # cs'" and ne: "cs' \<noteq> []"
    by (cases cs) (auto simp: Suc_le_eq)
  from run cs have sn: "start \<noteq> NULL"
    and rest: "chain (chunk_next (mem s)) (chunk_next (mem s) start) cs' t"
    by auto
  from free sub cs have sf: "is_free (mem s) start = 1" and sH: "start \<in> H"
    and sub': "set cs' \<subseteq> H" and free': "\<forall>c\<in>set cs'. is_free (mem s) c = 1"
    by auto
  from HMMremove_free_block_index [OF ix pa n sH] obtain s1 where
    rm: "HMMremove_free_block start s = Some s1"
    and ix1: "index_ok H (\<lambda>i. remove1 start (L i)) s1"
    and sc1: "same_chunks H s s1"
    by blast
  have nx: "chunk_next (mem s1) start = chunk_next (mem s) start"
    using sc1 sH by (simp add: same_chunks_def)
  have a1: "chain (chunk_next (mem s1)) (chunk_next (mem s1) start) cs' t"
    using rest nx same_chunks_chain [OF sc1 sub'] by simp
  have a2: "\<forall>c\<in>set cs'. is_free (mem s1) c = 1"
    using free' sc1 sub' by (auto simp: same_chunks_def)
  have a3: "t = NULL \<or> is_free (mem s1) t \<noteq> 1"
    using stop tH sc1 by (auto simp: same_chunks_def)
  define tot where "tot = sum_list (map (\<lambda>c. chunk_size (mem s1) c + header_size) cs')"
  from coalesce_walk_run [OF a1 a2 a3 sub' tH ix1 pa n sn, of 0] obtain s2 L2 where
    w: "coalesce_walk (chunk_next (mem s1) start) start 0 s1 = Some (t, start, tot, s2)"
    and sc2: "same_chunks H s1 s2" and ix2: "index_ok H L2 s2"
    and st: "\<forall>i. i < MULTIPLES_MAX \<longrightarrow> set (L2 i) = set (remove1 start (L i)) - set cs'"
    and fl2: "flags_ok H (\<lambda>i. remove1 start (L i)) s1 \<longrightarrow> flags_ok H L2 s2"
    by (auto simp: tot_def)
  have fl1: "flags_ok H L s \<Longrightarrow> flags_ok H (\<lambda>i. remove1 start (L i)) s1"
    using HMMremove_free_block_flags [OF ix pa n sH _ rm] by blast
  have sc: "same_chunks H s s2"
    using sc1 sc2 by (rule same_chunks_trans)
  have walk: "coalesce_walk start NULL 0 s = Some (t, start, tot, s2)"
    using sn sf rm w by (subst coalesce_walk.simps) (simp add: Let_def)
  have sets: "set (L2 i) = set (L i) - set cs" if "i < MULTIPLES_MAX" for i
  proof -
    have "distinct (L i)"
      using index_okD(1) [OF ix that] by (rule chain_distinct)
    then have "set (remove1 start (L i)) = set (L i) - {start}"
      by simp
    with st that cs show ?thesis
      by auto
  qed
  \<comment> \<open>the sizes, as natural numbers\<close>
  have each: "?g c < 2 ^ 64" if "c \<in> set cs" for c
  proof -
    have "?g c \<le> sum_list (map ?g cs)"
      using that by (intro member_le_sum_list) auto
    with fits show ?thesis
      by simp
  qed
  have one: "unat (chunk_size (mem s1) c + header_size) = ?g c" if "c \<in> set cs'" for c
  proof -
    have "chunk_size (mem s1) c = chunk_size (mem s) c"
      using sc1 sub' that by (auto simp: same_chunks_def)
    moreover have "?g c < 2 ^ 64"
      using each that cs by simp
    ultimately show ?thesis
      by (simp add: unat_plus_if')
  qed
  have fits': "unat (chunk_size (mem s) start) + sum_list (map ?g cs') + unat header_size < 2 ^ 64"
    using fits cs by simp
  have "sum_list (map (\<lambda>c. unat (chunk_size (mem s1) c + header_size)) cs')
        = sum_list (map ?g cs')"
    using one by (intro arg_cong [where f = sum_list] map_cong) auto
  moreover have "sum_list (map ?g cs') < 2 ^ 64"
    using fits' by simp
  ultimately have tot: "unat tot = sum_list (map ?g cs')"
    unfolding tot_def by (subst unat_sum_list) simp_all
  have "?g (hd cs') \<le> sum_list (map ?g cs')"
    using ne by (intro member_le_sum_list) auto
  then have "0 < unat tot"
    using tot by (simp add: header_size_def)
  then have pos: "0 < tot"
    by (simp add: word_less_nat_alt)
  define v where "v = chunk_size (mem s2) start + tot"
  have s2start: "chunk_size (mem s2) start = chunk_size (mem s) start"
    using sc sH by (simp add: same_chunks_def)
  have "unat v = unat (chunk_size (mem s) start) + unat tot"
    unfolding v_def s2start using fits' tot by (simp add: unat_plus_if')
  also have "\<dots> = sum_list (map (\<lambda>c. unat (chunk_size (mem s) c)) cs)
      + (length cs - 1) * unat header_size"
    using tot cs by (simp add: sum_list_plus_const)
  finally have vnat: "unat v = sum_list (map (\<lambda>c. unat (chunk_size (mem s) c)) cs)
      + (length cs - 1) * unat header_size" .
  \<comment> \<open>the state after the walk\<close>
  define m4 where "m4 = set_next start t (set_size start v (mem s2))"
  define s' where "s' = (if t \<noteq> NULL then s2\<lparr>mem := set_prev t start m4\<rparr>
      else s2\<lparr>tail := start, mem := set_next start NULL m4\<rparr>)"
  have res: "HMMcoalesce start s = Some s'"
    using sn walk pos
    by (simp add: HMMcoalesce_def Let_def s'_def m4_def v_def)
  have ts: "t \<noteq> NULL \<Longrightarrow> apart t start"
  proof -
    assume "t \<noteq> NULL"
    with stop tH sf have "t \<in> H" "t \<noteq> start"
      by auto
    with pa sH show ?thesis
      by (auto dest: pairwise_apartD)
  qed
  have f1: "chunk_size (mem s') start = v"
    using ts by (simp add: s'_def m4_def)
  have f2: "chunk_next (mem s') start = t"
    using ts by (auto simp: s'_def m4_def)
  have f3: "t \<noteq> NULL \<Longrightarrow> chunk_prev (mem s') t = start \<and> tail s' = tail s"
    using sc by (simp add: s'_def m4_def same_chunks_def)
  have f4: "t = NULL \<Longrightarrow> tail s' = start"
    by (simp add: s'_def)
  have nfs: "next_free (mem s') x = next_free (mem s2) x" if "x \<in> H" for x
  proof -
    have xs: "x \<noteq> start \<Longrightarrow> apart start x"
      using pa sH that by (auto dest: pairwise_apartD)
    have xt: "t \<noteq> NULL \<Longrightarrow> x \<noteq> t \<Longrightarrow> apart t x"
      using pa tH that by (auto dest: pairwise_apartD)
    show ?thesis
      using xs xt by (cases "x = start"; cases "x = t") (auto simp: s'_def m4_def)
  qed
  have szs: "chunk_size (mem s') x = chunk_size (mem s2) x" if "i < MULTIPLES_MAX" "x \<in> set (L2 i)" for i x
  proof -
    from sets [OF that(1)] that(2) cs have "x \<noteq> start"
      by auto
    moreover have xH: "x \<in> H"
      using index_okD(2) [OF ix2 that(1)] that(2) by auto
    ultimately have xs: "apart start x"
      using pa sH by (auto dest: pairwise_apartD)
    have xt: "t \<noteq> NULL \<Longrightarrow> x \<noteq> t \<Longrightarrow> apart t x"
      using pa tH xH by (auto dest: pairwise_apartD)
    show ?thesis
      using xs xt by (cases "x = t") (auto simp: s'_def m4_def)
  qed
  have bf: "block_freq s' = block_freq s2"
    by (simp add: s'_def)
  have ix': "index_ok H L2 s'"
  proof (rule index_ok_frame [OF ix2 bf])
    show "\<And>x. x \<in> H \<Longrightarrow> next_free (mem s') x = next_free (mem s2) x"
      by (rule nfs)
    show "\<And>i x. i < MULTIPLES_MAX \<Longrightarrow> x \<in> set (L2 i)
        \<Longrightarrow> chunk_size (mem s') x = chunk_size (mem s2) x"
      by (rule szs)
  qed
  have others: "is_added (mem s') x = is_added (mem s2) x
      \<and> is_free (mem s') x = is_free (mem s2) x
      \<and> (x \<noteq> start \<longrightarrow> chunk_size (mem s') x = chunk_size (mem s2) x)
      \<and> (x \<noteq> t \<longrightarrow> chunk_prev (mem s') x = chunk_prev (mem s2) x)" if "x \<in> H" for x
  proof -
    have xs: "x \<noteq> start \<Longrightarrow> apart start x"
      using pa sH that by (auto dest: pairwise_apartD)
    have xt: "t \<noteq> NULL \<Longrightarrow> x \<noteq> t \<Longrightarrow> apart t x"
      using pa tH that by (auto dest: pairwise_apartD)
    show ?thesis
      using xs xt by (cases "x = start"; cases "x = t") (auto simp: s'_def m4_def)
  qed
  have e1: "flags_ok H L s \<longrightarrow> flags_ok H L2 s'"
  proof
    assume "flags_ok H L s"
    with fl1 fl2 have "flags_ok H L2 s2"
      by blast
    with others show "flags_ok H L2 s'"
      by (simp add: flags_ok_def)
  qed
  have e2: "\<forall>x\<in>H. is_free (mem s') x = is_free (mem s) x"
    using others sc by (simp add: same_chunks_def)
  have e3: "\<forall>x\<in>H. x \<noteq> start \<longrightarrow> chunk_size (mem s') x = chunk_size (mem s) x"
    using others sc by (simp add: same_chunks_def)
  have e4: "\<forall>x\<in>H. x \<noteq> t \<longrightarrow> chunk_prev (mem s') x = chunk_prev (mem s) x"
    using others sc by (simp add: same_chunks_def)
  have e5: "head s' = head s \<and> brk s' = brk s \<and> brk_min s' = brk_min s \<and> brk_max s' = brk_max s"
    using sc by (simp add: s'_def same_chunks_def)
  from res f1 vnat f2 f3 f4 ix' sets e1 e2 e3 e4 e5 show ?thesis
    by (intro exI [of _ s'] exI [of _ L2]) simp
qed

text \<open>
  Claim C2.  Let \<open>cs\<close> be the chunks from \<open>start\<close> along \<^verbatim>\<open>next\<close>, at least two, all free,
  ending before \<open>t\<close>, which is \<open>NULL\<close> or a chunk that is not free.  The heap is well formed:
  the headers of the chunks in \<open>H\<close> do not overlap, every bucket is a \<open>NULL\<close>-terminated list
  of chunks of its size class, and the run fits the address space.  Then \<^verbatim>\<open>HMMcoalesce\<close>
  returns; \<open>start\<close> holds the payloads of the run and the headers between them; its \<^verbatim>\<open>next\<close>
  is \<open>t\<close>, whose \<^verbatim>\<open>prev\<close> is \<open>start\<close>; \<^verbatim>\<open>tail\<close> is \<open>start\<close> when \<open>t\<close> is \<open>NULL\<close> and is
  unchanged otherwise; and the buckets have lost exactly the chunks of the run, \<open>start\<close>
  among them.
\<close>

theorem coalesce_merges_run:
  assumes run: "chain (chunk_next (mem s)) start cs t"
    and k: "2 \<le> length cs"
    and free: "\<forall>c\<in>set cs. is_free (mem s) c = 1"
    and stop: "t = NULL \<or> is_free (mem s) t \<noteq> 1"
    and fits: "sum_list (map (\<lambda>c. unat (chunk_size (mem s) c) + unat header_size) cs) < 2 ^ 64"
    and sub: "set cs \<subseteq> H" and tH: "t \<in> H \<or> t = NULL"
    and pa: "pairwise_apart H" and n: "NULL \<notin> H"
    and ix: "index_ok H L s"
  shows "\<exists>s' L'. HMMcoalesce start s = Some s'
      \<and> unat (chunk_size (mem s') start)
          = sum_list (map (\<lambda>c. unat (chunk_size (mem s) c)) cs)
            + (length cs - 1) * unat header_size
      \<and> chunk_next (mem s') start = t
      \<and> (t \<noteq> NULL \<longrightarrow> chunk_prev (mem s') t = start \<and> tail s' = tail s)
      \<and> (t = NULL \<longrightarrow> tail s' = start)
      \<and> index_ok H L' s'
      \<and> (\<forall>i. i < MULTIPLES_MAX \<longrightarrow> set (L' i) = set (L i) - set cs)"
  using HMMcoalesce_run [OF assms] by blast

lemma three_chunks_index_ok: "index_ok {0x1000, 0x1038, 0x1078} three_chunks_index three_chunks"
  by (auto simp: index_ok_def three_chunks_index_def three_chunks_def bucket_of_def run_simps)

lemma three_chunks_apart: "pairwise_apart {0x1000, 0x1038, 0x1078}"
  by (simp add: pairwise_apart_def apart_def)

theorem coalesce_merges_run_witness:
  "chain (chunk_next (mem three_chunks)) 0x1000 [0x1000, 0x1038] 0x1078
   \<and> is_free (mem three_chunks) 0x1000 = 1 \<and> is_free (mem three_chunks) 0x1038 = 1
   \<and> is_free (mem three_chunks) 0x1078 = 0
   \<and> chunk_size (mem three_chunks) 0x1000 = 16 \<and> chunk_size (mem three_chunks) 0x1038 = 24
   \<and> pairwise_apart {0x1000, 0x1038, 0x1078}
   \<and> index_ok {0x1000, 0x1038, 0x1078} three_chunks_index three_chunks
   \<and> (\<exists>s' L'. HMMcoalesce 0x1000 three_chunks = Some s'
        \<and> unat (chunk_size (mem s') 0x1000) = 16 + 24 + 40
        \<and> chunk_next (mem s') 0x1000 = 0x1078
        \<and> chunk_prev (mem s') 0x1078 = 0x1000
        \<and> tail s' = 0x1078
        \<and> index_ok {0x1000, 0x1038, 0x1078} L' s'
        \<and> set (L' 1) = {} \<and> set (L' 2) = {})"
proof -
  have h1: "chain (chunk_next (mem three_chunks)) 0x1000 [0x1000, 0x1038] 0x1078"
    by (simp add: three_chunks_def run_simps)
  have h2: "is_free (mem three_chunks) 0x1000 = 1" "is_free (mem three_chunks) 0x1038 = 1"
    "is_free (mem three_chunks) 0x1078 = 0"
    "chunk_size (mem three_chunks) 0x1000 = 16" "chunk_size (mem three_chunks) 0x1038 = 24"
    by (simp_all add: three_chunks_def run_simps)
  have h3: "\<forall>c\<in>set [0x1000, 0x1038]. is_free (mem three_chunks) c = 1"
    using h2 by simp
  have h4: "0x1078 = NULL \<or> is_free (mem three_chunks) 0x1078 \<noteq> 1"
    using h2 by simp
  have h5: "sum_list (map (\<lambda>c. unat (chunk_size (mem three_chunks) c) + unat header_size)
      [0x1000, 0x1038]) < 2 ^ 64"
    using h2 by (simp add: header_size_def)
  have h6: "set [0x1000, 0x1038] \<subseteq> {0x1000, 0x1038, 0x1078 :: addr}"
    "0x1078 \<in> {0x1000, 0x1038, 0x1078 :: addr} \<or> 0x1078 = NULL"
    "NULL \<notin> {0x1000, 0x1038, 0x1078 :: addr}"
    by (simp_all add: NULL_def)
  from coalesce_merges_run [OF h1 _ h3 h4 h5 h6(1,2) three_chunks_apart h6(3)
      three_chunks_index_ok]
  obtain s' L' where r: "HMMcoalesce 0x1000 three_chunks = Some s'"
    "unat (chunk_size (mem s') 0x1000)
      = sum_list (map (\<lambda>c. unat (chunk_size (mem three_chunks) c)) [0x1000, 0x1038])
        + (length [0x1000, 0x1038 :: addr] - 1) * unat header_size"
    "chunk_next (mem s') 0x1000 = 0x1078"
    "0x1078 \<noteq> NULL \<longrightarrow> chunk_prev (mem s') 0x1078 = 0x1000 \<and> tail s' = tail three_chunks"
    "index_ok {0x1000, 0x1038, 0x1078} L' s'"
    "\<forall>i. i < MULTIPLES_MAX \<longrightarrow> set (L' i) = set (three_chunks_index i) - set [0x1000, 0x1038]"
    by auto
  have "set (L' 1) = {}" "set (L' 2) = {}"
    using r(6) by (auto simp: MULTIPLES_MAX_def ALLOCATED_BYTES_def ALIGNMENT_def
        three_chunks_index_def)
  moreover have "tail three_chunks = 0x1078"
    by (simp add: three_chunks_def)
  ultimately show ?thesis
    using h1 h2 three_chunks_apart three_chunks_index_ok r
    by (auto simp: header_size_def NULL_def)
qed

section \<open>What a release leaves in the index\<close>

text \<open>
  Lines 329 to 342 of \<^verbatim>\<open>HMMfree\<close> keep the index complete for the size classes it can hold.
  Let \<open>H\<close> be a set of chunk headers that do not overlap, indexed by the lists \<open>L\<close>, with the
  \<^verbatim>\<open>is_added\<close> flag set exactly on the indexed chunks, and such that every free chunk of a
  size class below \<^verbatim>\<open>MULTIPLES_MAX\<close> is indexed.  Let \<open>ptr\<close> be the payload of an allocated,
  unindexed chunk \<open>c\<close> of \<open>H\<close>, followed by the free run \<open>rest\<close> that stops at \<open>t\<close>, and let
  \<open>ms\<close> be the chunks that the release fuses.  Then the merge ends in a state \<open>s2\<close>, which
  \<^verbatim>\<open>HMMfree\<close> returns when the shrink walk is not entered, and in \<open>s2\<close> every free chunk that
  is still a chunk and whose size class is below \<^verbatim>\<open>MULTIPLES_MAX\<close> is indexed; the fused
  chunk is indexed exactly when its size class is below \<^verbatim>\<open>MULTIPLES_MAX\<close>.
\<close>

lemma merge_freed_indexes:
  assumes pa: "pairwise_apart H" and n: "NULL \<notin> H"
    and ok: "index_ok H L s" and fl: "flags_ok H L s" and inv: "free_indexed H s"
    and ptr: "ptr \<noteq> NULL" and c: "c = ptr - header_size" and cH: "c \<in> H"
    and cf: "is_free (mem s) c = 0" and ca: "is_added (mem s) c = 0"
    and run: "chain (chunk_next (mem s)) c (c # rest) t"
    and rH: "set rest \<subseteq> H" and rf: "\<forall>x\<in>set rest. is_free (mem s) x = 1"
    and stop: "t = NULL \<or> t \<in> H \<and> t \<noteq> c \<and> is_free (mem s) t \<noteq> 1"
    and p: "p = chunk_prev (mem s) c"
    and pH: "p = NULL \<or> p \<in> H \<and> p \<noteq> c"
    and pn: "p \<noteq> NULL \<and> is_free (mem s) p = 1 \<longrightarrow> chunk_next (mem s) p = c"
    and ms: "ms = merged_run (mem s) c rest"
    and fits: "sum_list (map (\<lambda>x. unat (chunk_size (mem s) x) + unat header_size) ms) < 2 ^ 64"
  shows "\<exists>s2 L2. merge_freed c (s\<lparr>mem := set_is_free c 1 (mem s)\<rparr>) = Some s2
      \<and> (current_free_size s2 < ALLOCATED_BYTES \<longrightarrow> HMMfree ptr s = Some s2)
      \<and> index_ok H L2 s2 \<and> flags_ok H L2 s2
      \<and> free_indexed (H - set (tl ms)) s2
      \<and> is_free (mem s2) (hd ms) = 1
      \<and> unat (chunk_size (mem s2) (hd ms))
          = sum_list (map (\<lambda>x. unat (chunk_size (mem s) x)) ms)
            + (length ms - 1) * unat header_size
      \<and> (is_added (mem s2) (hd ms) \<noteq> 0 \<longleftrightarrow> bucket_of (mem s2) (hd ms) < MULTIPLES_MAX)
      \<and> (\<forall>x\<in>H - set ms. is_free (mem s2) x = is_free (mem s) x
                            \<and> chunk_size (mem s2) x = chunk_size (mem s) x)"
proof -
  define s1 where "s1 = s\<lparr>mem := set_is_free c 1 (mem s)\<rparr>"
  define Q where "Q s2 L2 \<longleftrightarrow> merge_freed c s1 = Some s2
      \<and> (current_free_size s2 < ALLOCATED_BYTES \<longrightarrow> HMMfree ptr s = Some s2)
      \<and> index_ok H L2 s2 \<and> flags_ok H L2 s2
      \<and> free_indexed (H - set (tl ms)) s2
      \<and> is_free (mem s2) (hd ms) = 1
      \<and> unat (chunk_size (mem s2) (hd ms))
          = sum_list (map (\<lambda>x. unat (chunk_size (mem s) x)) ms)
            + (length ms - 1) * unat header_size
      \<and> (is_added (mem s2) (hd ms) \<noteq> 0 \<longleftrightarrow> bucket_of (mem s2) (hd ms) < MULTIPLES_MAX)
      \<and> (\<forall>x\<in>H - set ms. is_free (mem s2) x = is_free (mem s) x
                            \<and> chunk_size (mem s2) x = chunk_size (mem s) x)" for s2 L2
  note mf = mark_free_fields [OF pa cH, of _ "mem s"]
  have m1: "mem s1 = set_is_free c 1 (mem s)" and bf1: "block_freq s1 = block_freq s"
    by (simp_all add: s1_def)
  have ok1: "index_ok H L s1"
    using ok bf1
  proof (rule index_ok_frame)
    fix x assume "x \<in> H"
    then show "next_free (mem s1) x = next_free (mem s) x"
      by (simp add: m1 mf)
  next
    fix i x assume "i < MULTIPLES_MAX" "x \<in> set (L i)"
    with index_okD(2) [OF ok] have "x \<in> H"
      by auto
    then show "chunk_size (mem s1) x = chunk_size (mem s) x"
      by (simp add: m1 mf)
  qed
  have fl1: "flags_ok H L s1"
    using fl by (simp add: flags_ok_def m1 mf)
  have free_eq: "HMMfree ptr s = do { s2 \<leftarrow> merge_freed c s1; release_excess s2 }"
    using ptr cf by (simp add: HMMfree_def c s1_def Let_def)
  have tc: "t \<noteq> c"
    using stop cH n by auto
  have stop1: "t = NULL \<or> is_free (mem s1) t \<noteq> 1"
    using stop by (auto simp: m1 mf)
  have tH: "t \<in> H \<or> t = NULL"
    using stop by auto
  have pc: "chunk_prev (mem s1) c = p"
    by (simp add: m1 mf cH p)
  have old: "is_added (mem s1) x \<noteq> 0" if "x \<in> H" "x \<noteq> c" "is_free (mem s1) x = 1"
    "bucket_of (mem s1) x < MULTIPLES_MAX" for x
  proof -
    from that have "is_free (mem s) x = 1" "bucket_of (mem s) x < MULTIPLES_MAX"
      by (simp_all add: m1 mf bucket_of_def)
    with inv that(1) have "is_added (mem s) x \<noteq> 0"
      unfolding free_indexed_def by blast
    with that(1) show ?thesis
      by (simp add: m1 mf)
  qed
  have finish: "\<exists>s2 L2. Q s2 L2"
    if mg: "merge_freed c s1 = Some (HMMadd_free_block (hd ms) s')"
      and ok': "index_ok H L' s'" and fl': "flags_ok H L' s'"
      and hH: "hd ms \<in> H"
      and ha: "is_added (mem s') (hd ms) = 0" and hf: "is_free (mem s') (hd ms) = 1"
      and sz: "unat (chunk_size (mem s') (hd ms))
          = sum_list (map (\<lambda>x. unat (chunk_size (mem s) x)) ms)
            + (length ms - 1) * unat header_size"
      and oth: "\<And>x. x \<in> H - set (tl ms) \<Longrightarrow> x \<noteq> hd ms \<Longrightarrow> is_free (mem s') x = 1
                \<Longrightarrow> bucket_of (mem s') x < MULTIPLES_MAX \<Longrightarrow> is_added (mem s') x \<noteq> 0"
      and frm: "\<And>x. x \<in> H - set ms \<Longrightarrow> is_free (mem s') x = is_free (mem s) x
                \<and> chunk_size (mem s') x = chunk_size (mem s) x"
    for s' L'
  proof -
    let ?s2 = "HMMadd_free_block (hd ms) s'"
    have "\<exists>L2. index_ok H L2 ?s2 \<and> flags_ok H L2 ?s2
      \<and> free_indexed (H - set (tl ms)) ?s2
      \<and> is_free (mem ?s2) (hd ms) = 1
      \<and> chunk_size (mem ?s2) (hd ms) = chunk_size (mem s') (hd ms)
      \<and> (is_added (mem ?s2) (hd ms) \<noteq> 0 \<longleftrightarrow> bucket_of (mem ?s2) (hd ms) < MULTIPLES_MAX)"
      using ok' pa n hH fl' ha hf
    proof (rule HMMadd_free_block_covers)
      show "H - set (tl ms) \<subseteq> H"
        by blast
    qed (rule oth)
    then obtain L2 where r: "index_ok H L2 ?s2" "flags_ok H L2 ?s2"
      "free_indexed (H - set (tl ms)) ?s2"
      "is_free (mem ?s2) (hd ms) = 1"
      "chunk_size (mem ?s2) (hd ms) = chunk_size (mem s') (hd ms)"
      "is_added (mem ?s2) (hd ms) \<noteq> 0 \<longleftrightarrow> bucket_of (mem ?s2) (hd ms) < MULTIPLES_MAX"
      by blast
    have "release_excess ?s2 = Some ?s2" if "current_free_size ?s2 < ALLOCATED_BYTES"
      using that by (rule release_excess_small)
    then have "current_free_size ?s2 < ALLOCATED_BYTES \<longrightarrow> HMMfree ptr s = Some ?s2"
      by (simp add: free_eq mg)
    moreover have "unat (chunk_size (mem ?s2) (hd ms))
          = sum_list (map (\<lambda>x. unat (chunk_size (mem s) x)) ms)
            + (length ms - 1) * unat header_size"
      by (simp only: r(5) sz)
    moreover have "is_free (mem ?s2) x = is_free (mem s) x
        \<and> chunk_size (mem ?s2) x = chunk_size (mem s) x" if "x \<in> H - set ms" for x
      using frm [OF that] HMMadd_free_block_fields(1,2) [OF pa hH, of x s'] that by simp
    ultimately have "Q ?s2 L2"
      unfolding Q_def using mg r(1,2,3,4,6) by blast
    then show ?thesis
      by blast
  qed
  have merged: "\<exists>s2 L2. Q s2 L2"
    if two: "2 \<le> length ms" and msH: "set ms \<subseteq> H"
      and ch: "chain (chunk_next (mem s)) (hd ms) ms t"
      and fr: "\<forall>x\<in>set ms. is_free (mem s1) x = 1"
      and cm: "c \<in> set ms"
      and mg: "\<And>s'. HMMcoalesce (hd ms) s1 = Some s' \<Longrightarrow> chunk_prev (mem s') c = p
          \<Longrightarrow> merge_freed c s1 = Some (HMMadd_free_block (hd ms) s')"
  proof -
    have "chain (chunk_next (mem s1)) (hd ms) ms t = chain (chunk_next (mem s)) (hd ms) ms t"
      using msH by (intro chain_cong) (auto simp: m1 mf)
    with ch have ch1: "chain (chunk_next (mem s1)) (hd ms) ms t"
      by simp
    have "map (\<lambda>x. unat (chunk_size (mem s1) x) + unat header_size) ms
        = map (\<lambda>x. unat (chunk_size (mem s) x) + unat header_size) ms"
      using msH by (intro map_cong) (auto simp: m1 mf)
    then have fits1:
      "sum_list (map (\<lambda>x. unat (chunk_size (mem s1) x) + unat header_size) ms) < 2 ^ 64"
      using fits by (simp only:)
    have sz1: "map (\<lambda>x. unat (chunk_size (mem s1) x)) ms = map (\<lambda>x. unat (chunk_size (mem s) x)) ms"
      using msH by (intro map_cong) (auto simp: m1 mf)
    from HMMcoalesce_run [OF ch1 two fr stop1 fits1 msH tH pa n ok1]
    obtain s' L' where r: "HMMcoalesce (hd ms) s1 = Some s'"
      "unat (chunk_size (mem s') (hd ms))
          = sum_list (map (\<lambda>x. unat (chunk_size (mem s1) x)) ms)
            + (length ms - 1) * unat header_size"
      "index_ok H L' s'"
      "\<forall>i. i < MULTIPLES_MAX \<longrightarrow> set (L' i) = set (L i) - set ms"
      "flags_ok H L s1 \<longrightarrow> flags_ok H L' s'"
      "\<forall>x\<in>H. is_free (mem s') x = is_free (mem s1) x"
      "\<forall>x\<in>H. x \<noteq> hd ms \<longrightarrow> chunk_size (mem s') x = chunk_size (mem s1) x"
      "\<forall>x\<in>H. x \<noteq> t \<longrightarrow> chunk_prev (mem s') x = chunk_prev (mem s1) x"
      by blast
    from two obtain a as where mas: "ms = a # as"
      by (cases ms) auto
    have hH: "hd ms \<in> H" and hm: "hd ms \<in> set ms"
      using msH mas by auto
    have fl': "flags_ok H L' s'"
      using r(5) fl1 by simp
    have gone: "is_added (mem s') x = 0" if "x \<in> set ms" for x
    proof -
      have "\<not> (\<exists>i. i < MULTIPLES_MAX \<and> x \<in> set (L' i))"
        using r(4) that by auto
      with fl' msH that show ?thesis
        by (auto simp: flags_ok_def)
    qed
    have kept: "is_added (mem s') x \<noteq> 0" if x: "x \<in> H - set (tl ms)" "x \<noteq> hd ms"
      and h: "is_free (mem s') x = 1" "bucket_of (mem s') x < MULTIPLES_MAX" for x
    proof -
      from x mas have xm: "x \<notin> set ms" and xH: "x \<in> H"
        by auto
      with cm have xc: "x \<noteq> c"
        by auto
      from h r(6,7) xH x(2) have "is_free (mem s1) x = 1" "bucket_of (mem s1) x < MULTIPLES_MAX"
        by (auto simp: bucket_of_def)
      from old [OF xH xc this] fl1 xH obtain i where "i < MULTIPLES_MAX" "x \<in> set (L i)"
        by (auto simp: flags_ok_def)
      with r(4) xm have "i < MULTIPLES_MAX \<and> x \<in> set (L' i)"
        by auto
      with fl' xH show ?thesis
        by (auto simp: flags_ok_def)
    qed
    have "chunk_prev (mem s') c = p"
      using r(8) cH tc pc by auto
    with r(1) have "merge_freed c s1 = Some (HMMadd_free_block (hd ms) s')"
      by (rule mg)
    moreover have "is_free (mem s') (hd ms) = 1"
      using r(6) hH fr hm by auto
    moreover have "unat (chunk_size (mem s') (hd ms))
          = sum_list (map (\<lambda>x. unat (chunk_size (mem s) x)) ms)
            + (length ms - 1) * unat header_size"
      using r(2) sz1 by simp
    moreover have "is_free (mem s') x = is_free (mem s) x
        \<and> chunk_size (mem s') x = chunk_size (mem s) x" if "x \<in> H - set ms" for x
    proof -
      from that hm cm have "x \<in> H" "x \<noteq> hd ms" "x \<noteq> c"
        by auto
      with r(6,7) show ?thesis
        by (simp add: m1 mf)
    qed
    ultimately show ?thesis
      using r(3) fl' hH gone [OF hm] kept by (intro finish [of s' L']) auto
  qed
  have rfree: "\<forall>x\<in>set rest. is_free (mem s1) x = 1"
    using rf rH by (auto simp: m1 mf)
  have cnx: "chain (chunk_next (mem s)) (chunk_next (mem s) c) rest t" and cn: "c \<noteq> NULL"
    using run by auto
  have "\<exists>s2 L2. Q s2 L2"
  proof (cases "p \<noteq> NULL \<and> is_free (mem s) p = 1")
    case True
    with pH pn have pin: "p \<in> H" and pnc: "p \<noteq> c" and nx: "chunk_next (mem s) p = c"
      by auto
    have m: "ms = p # c # rest"
      using True by (simp add: ms merged_run_def p [symmetric])
    have pf1: "is_free (mem s1) p = 1"
      using True pin pnc by (simp add: m1 mf)
    show ?thesis
    proof (rule merged)
      show "2 \<le> length ms" "c \<in> set ms"
        by (simp_all add: m)
      show "set ms \<subseteq> H"
        using pin cH rH by (simp add: m)
      show "chain (chunk_next (mem s)) (hd ms) ms t"
        using True nx run by (simp add: m)
      show "\<forall>x\<in>set ms. is_free (mem s1) x = 1"
        using pf1 rfree cH by (simp add: m m1 mf)
      fix s' assume "HMMcoalesce (hd ms) s1 = Some s'" "chunk_prev (mem s') c = p"
      then show "merge_freed c s1 = Some (HMMadd_free_block (hd ms) s')"
        using True pf1 pc by (simp add: merge_freed_def m)
    qed
  next
    case False
    then have m: "ms = c # rest"
      by (auto simp: ms merged_run_def p [symmetric])
    have "p = NULL \<or> is_free (mem s1) p \<noteq> 1"
    proof (cases "p = NULL")
      case False
      with pH have "p \<in> H" "p \<noteq> c"
        by auto
      then have "is_free (mem s1) p = is_free (mem s) p"
        by (simp add: m1 mf)
      with \<open>\<not> (p \<noteq> NULL \<and> is_free (mem s) p = 1)\<close> False show ?thesis
        by simp
    qed simp
    then have nA: "\<not> (chunk_prev (mem s1) c \<noteq> NULL \<and> is_free (mem s1) (chunk_prev (mem s1) c) = 1)"
      unfolding pc by blast
    have cf1: "is_free (mem s1) c = 1" and nx1: "chunk_next (mem s1) c = chunk_next (mem s) c"
      using cH by (simp_all add: m1 mf)
    show ?thesis
    proof (cases rest)
      case (Cons r rs)
      with cnx have rr: "chunk_next (mem s) c = r" "r \<noteq> NULL"
        by auto
      have r1: "is_free (mem s1) r = 1"
        using rfree Cons by simp
      show ?thesis
      proof (rule merged)
        show "2 \<le> length ms" "c \<in> set ms"
          by (simp_all add: m Cons)
        show "set ms \<subseteq> H"
          using cH rH by (simp add: m)
        show "chain (chunk_next (mem s)) (hd ms) ms t"
          using run by (simp add: m)
        show "\<forall>x\<in>set ms. is_free (mem s1) x = 1"
          using cf1 rfree by (simp add: m)
        fix s' assume "HMMcoalesce (hd ms) s1 = Some s'"
        then show "merge_freed c s1 = Some (HMMadd_free_block (hd ms) s')"
          using nA rr r1 nx1 by (auto simp: merge_freed_def m)
      qed
    next
      case Nil
      with cnx have tn: "chunk_next (mem s) c = t"
        by simp
      have nB: "\<not> (chunk_next (mem s1) c \<noteq> NULL \<and> is_free (mem s1) (chunk_next (mem s1) c) = 1)"
        using stop1 by (auto simp: nx1 tn)
      have mg: "merge_freed c s1 = Some (HMMadd_free_block (hd ms) s1)"
        using nA nB by (auto simp: merge_freed_def m)
      have "unat (chunk_size (mem s1) (hd ms))
          = sum_list (map (\<lambda>x. unat (chunk_size (mem s) x)) ms)
            + (length ms - 1) * unat header_size"
        using cH by (simp add: m Nil m1 mf)
      moreover have "is_added (mem s1) (hd ms) = 0"
        using cH ca by (simp add: m m1 mf)
      moreover have "\<And>x. x \<in> H - set (tl ms) \<Longrightarrow> x \<noteq> hd ms \<Longrightarrow> is_free (mem s1) x = 1
                \<Longrightarrow> bucket_of (mem s1) x < MULTIPLES_MAX \<Longrightarrow> is_added (mem s1) x \<noteq> 0"
        using old by (simp add: m)
      moreover have "\<And>x. x \<in> H - set ms \<Longrightarrow> is_free (mem s1) x = is_free (mem s) x
                \<and> chunk_size (mem s1) x = chunk_size (mem s) x"
        by (simp add: m m1 mf)
      ultimately show ?thesis
        using mg ok1 fl1 cH cf1 by (intro finish [of s1 L]) (simp_all add: m)
    qed
  qed
  then show ?thesis
    unfolding Q_def s1_def .
qed

lemma three_chunks_fields:
  "is_free (mem three_chunks) 0x1000 = 1" "is_free (mem three_chunks) 0x1038 = 1"
  "is_free (mem three_chunks) 0x1078 = 0"
  "is_added (mem three_chunks) 0x1000 = 1" "is_added (mem three_chunks) 0x1038 = 1"
  "is_added (mem three_chunks) 0x1078 = 0"
  "chunk_size (mem three_chunks) 0x1000 = 16" "chunk_size (mem three_chunks) 0x1038 = 24"
  "chunk_size (mem three_chunks) 0x1078 = 8"
  "chunk_prev (mem three_chunks) 0x1078 = 0x1038" "chunk_next (mem three_chunks) 0x1038 = 0x1078"
  "chunk_next (mem three_chunks) 0x1078 = NULL"
  by (simp_all add: three_chunks_def run_simps)

lemma three_chunks_flags: "flags_ok {0x1000, 0x1038, 0x1078} three_chunks_index three_chunks"
proof -
  have "\<exists>i. i < MULTIPLES_MAX \<and> 0x1000 \<in> set (three_chunks_index i)"
    by (rule exI [of _ 1])
      (simp add: MULTIPLES_MAX_def ALLOCATED_BYTES_def ALIGNMENT_def three_chunks_index_def)
  moreover have "\<exists>i. i < MULTIPLES_MAX \<and> 0x1038 \<in> set (three_chunks_index i)"
    by (rule exI [of _ 2])
      (simp add: MULTIPLES_MAX_def ALLOCATED_BYTES_def ALIGNMENT_def three_chunks_index_def)
  moreover have "\<not> (\<exists>i. i < MULTIPLES_MAX \<and> 0x1078 \<in> set (three_chunks_index i))"
    by (auto simp: three_chunks_index_def split: if_splits)
  ultimately show ?thesis
    by (simp add: flags_ok_def three_chunks_fields)
qed

lemma three_chunks_free_indexed: "free_indexed {0x1000, 0x1038, 0x1078} three_chunks"
  by (simp add: free_indexed_def three_chunks_fields)

lemma three_chunks_merge_freed:
  "let r = merge_freed 0x1078 (three_chunks\<lparr>mem := set_is_free 0x1078 1 (mem three_chunks)\<rparr>)
   in r \<noteq> None \<and> current_free_size (the r) = 88"
  by (simp add: three_chunks_def run_simps cong: run_congs)

lemma merge_freed_indexes_three_chunks:
  "\<exists>s2. HMMfree 0x10A0 three_chunks = Some s2
      \<and> is_free (mem s2) 0x1038 = 1 \<and> unat (chunk_size (mem s2) 0x1038) = 72
      \<and> is_added (mem s2) 0x1038 \<noteq> 0
      \<and> is_free (mem s2) 0x1000 = 1 \<and> is_added (mem s2) 0x1000 \<noteq> 0"
proof -
  let ?H = "{0x1000, 0x1038, 0x1078 :: addr}"
  have n: "NULL \<notin> ?H"
    by (simp add: NULL_def)
  have ptr: "(0x10A0 :: addr) \<noteq> NULL" "(0x1078 :: addr) = 0x10A0 - header_size"
    by (simp_all add: NULL_def header_size_def)
  have cH: "0x1078 \<in> ?H"
    by simp
  have run: "chain (chunk_next (mem three_chunks)) 0x1078 (0x1078 # []) NULL"
    by (simp add: three_chunks_fields) (simp add: NULL_def)
  have rest: "set [] \<subseteq> ?H" "\<forall>x\<in>set []. is_free (mem three_chunks) x = 1"
    by simp_all
  have stop: "NULL = NULL \<or> NULL \<in> ?H \<and> NULL \<noteq> (0x1078 :: addr) \<and> is_free (mem three_chunks) NULL \<noteq> 1"
    by simp
  have p: "(0x1038 :: addr) = chunk_prev (mem three_chunks) 0x1078"
    by (simp add: three_chunks_fields)
  have pH: "(0x1038 :: addr) = NULL \<or> 0x1038 \<in> ?H \<and> (0x1038 :: addr) \<noteq> 0x1078"
    by simp
  have pn: "(0x1038 :: addr) \<noteq> NULL \<and> is_free (mem three_chunks) 0x1038 = 1
      \<longrightarrow> chunk_next (mem three_chunks) 0x1038 = 0x1078"
    by (simp add: three_chunks_fields)
  have ms: "[0x1038, 0x1078] = merged_run (mem three_chunks) 0x1078 []"
    by (simp add: merged_run_def three_chunks_fields NULL_def)
  have fits: "sum_list (map (\<lambda>x. unat (chunk_size (mem three_chunks) x) + unat header_size)
      [0x1038, 0x1078]) < 2 ^ 64"
    by (simp add: three_chunks_fields header_size_def)
  from merge_freed_indexes [OF three_chunks_apart n three_chunks_index_ok three_chunks_flags
      three_chunks_free_indexed ptr cH three_chunks_fields(3) three_chunks_fields(6) run rest stop
      p pH pn ms fits]
  obtain s2 L2 where r:
    "merge_freed 0x1078 (three_chunks\<lparr>mem := set_is_free 0x1078 1 (mem three_chunks)\<rparr>) = Some s2"
    "current_free_size s2 < ALLOCATED_BYTES \<longrightarrow> HMMfree 0x10A0 three_chunks = Some s2"
    "index_ok ?H L2 s2"
    "free_indexed (?H - set (tl [0x1038, 0x1078])) s2"
    "is_free (mem s2) (hd [0x1038, 0x1078]) = 1"
    "unat (chunk_size (mem s2) (hd [0x1038, 0x1078]))
       = sum_list (map (\<lambda>x. unat (chunk_size (mem three_chunks) x)) [0x1038, 0x1078])
         + (length [0x1038, 0x1078 :: addr] - 1) * unat header_size"
    "is_added (mem s2) (hd [0x1038, 0x1078]) \<noteq> 0
       \<longleftrightarrow> bucket_of (mem s2) (hd [0x1038, 0x1078]) < MULTIPLES_MAX"
    "\<forall>x\<in>?H - set [0x1038, 0x1078]. is_free (mem s2) x = is_free (mem three_chunks) x
        \<and> chunk_size (mem s2) x = chunk_size (mem three_chunks) x"
    by blast
  from three_chunks_merge_freed r(1) have "current_free_size s2 = 88"
    by (simp add: Let_def)
  with r(2) have a: "HMMfree 0x10A0 three_chunks = Some s2"
    by (simp add: ALLOCATED_BYTES_def)
  have b: "is_free (mem s2) 0x1038 = 1" and sz: "unat (chunk_size (mem s2) 0x1038) = 72"
    using r(5,6) by (simp_all add: three_chunks_fields header_size_def)
  have "chunk_size (mem s2) 0x1038 = of_nat (unat (chunk_size (mem s2) 0x1038))"
    by simp
  also have "\<dots> = 72"
    by (simp only: sz) simp
  finally have "chunk_size (mem s2) 0x1038 = 72" .
  then have "bucket_of (mem s2) 0x1038 < MULTIPLES_MAX"
    by (simp add: bucket_of_def MULTIPLES_MAX_def ALLOCATED_BYTES_def ALIGNMENT_def)
  with r(7) have c: "is_added (mem s2) 0x1038 \<noteq> 0"
    by simp
  from r(8) have d: "is_free (mem s2) 0x1000 = 1" "chunk_size (mem s2) 0x1000 = 16"
    by (simp_all add: three_chunks_fields)
  then have "bucket_of (mem s2) 0x1000 < MULTIPLES_MAX"
    by (simp add: bucket_of_def MULTIPLES_MAX_def ALLOCATED_BYTES_def ALIGNMENT_def)
  with r(4) d(1) have e: "is_added (mem s2) 0x1000 \<noteq> 0"
    by (simp add: free_indexed_def)
  from a b sz c d(1) e show ?thesis
    by blast
qed

text \<open>
  A client allocates 8 MiB from the empty heap and releases it.  The arena grown for the
  request is 16 MiB; the released chunk is the whole arena, its size class
  \<open>16777176 div 8 - 1 = 2097146\<close> is beyond \<^verbatim>\<open>MULTIPLES_MAX\<close>, and \<^verbatim>\<open>HMMadd_free_block\<close> leaves
  it out: after \<^verbatim>\<open>free\<close> has returned the only chunk of the heap is free and is not in the
  index.
\<close>

lemma alloc_arena_free_run:
  "let r = run [Malloc 8388608, Free 0] (fresh 0x1000000 0x5000000)
   in returned r = Some [0x1000028]
      \<and> observe HMMtraverse r = Some (Some [0x1000000])
      \<and> observe (free_at 0x1000000) r = Some 1
      \<and> observe (added_at 0x1000000) r = Some 0
      \<and> observe (size_at 0x1000000) r = Some 16777176
      \<and> observe current_free_size r = Some 0"
  by (simp add: run_simps cong: run_congs)

lemma free_leaves_large_chunk_unindexed:
  "returned (run [Malloc 8388608, Free 0] (fresh 0x1000000 0x5000000)) = Some [0x1000028]
   \<and> observe HMMtraverse (run [Malloc 8388608, Free 0] (fresh 0x1000000 0x5000000))
       = Some (Some [0x1000000])
   \<and> observe (free_at 0x1000000) (run [Malloc 8388608, Free 0] (fresh 0x1000000 0x5000000))
       = Some 1
   \<and> observe (added_at 0x1000000) (run [Malloc 8388608, Free 0] (fresh 0x1000000 0x5000000))
       = Some 0
   \<and> observe (size_at 0x1000000) (run [Malloc 8388608, Free 0] (fresh 0x1000000 0x5000000))
       = Some 16777176"
  using alloc_arena_free_run
  by (simp add: Let_def)

text \<open>
  The shrink walk of lines 345 to 380 takes every free chunk of the tail run out of its
  bucket before it knows whether the run reaches \<^verbatim>\<open>ALLOCATED_BYTES\<close>.  A client allocates
  8 MiB, 8 bytes and 8388480 bytes and releases the first and the third.  Before the last
  release the chunk at \<open>0x1800058\<close> is in use.  The release marks it free and indexes it, the
  accumulator reaches 16777088 and the walk is entered; the walk removes the chunk from
  bucket 1048559 and stops at the 8-byte chunk with a total of 8388520, which is below
  \<^verbatim>\<open>ALLOCATED_BYTES\<close>, so nothing is given back and the break stays.
\<close>

lemma shrink_walk_before_run:
  "let r = run [Malloc 8388608, Malloc 8, Malloc 8388480, Free 0] (fresh 0x1000000 0x5000000)
   in returned r = Some [0x1000028, 0x1800050, 0x1800080]
      \<and> observe (free_at 0x1800058) r = Some 0
      \<and> observe (size_at 0x1800058) r = Some 8388480
      \<and> observe brk r = Some 0x2000000"
  by (simp add: run_simps cong: run_congs)

lemma shrink_walk_run:
  "let r = run [Malloc 8388608, Malloc 8, Malloc 8388480, Free 0, Free 2]
             (fresh 0x1000000 0x5000000)
   in returned r = Some [0x1000028, 0x1800050, 0x1800080]
      \<and> observe HMMtraverse r = Some (Some [0x1000000, 0x1800028, 0x1800058])
      \<and> observe (free_at 0x1800058) r = Some 1
      \<and> observe (added_at 0x1800058) r = Some 0
      \<and> observe (size_at 0x1800058) r = Some 8388480
      \<and> observe (bucket 1048559) r = Some NULL
      \<and> observe brk r = Some 0x2000000"
  by (simp add: run_simps cong: run_congs)

text \<open>
  Claim C4 fails on this run.  After the last \<^verbatim>\<open>free\<close> has returned, the chunk at
  \<open>0x1800058\<close> is on the chunk list and free, its size class \<open>8388480 div 8 - 1 = 1048559\<close> is
  below \<^verbatim>\<open>MULTIPLES_MAX\<close>, and it is not in the index: its \<^verbatim>\<open>is_added\<close> flag is 0 and its
  bucket is empty.
\<close>

theorem free_shrink_walk_deindexes:
  "returned (run [Malloc 8388608, Malloc 8, Malloc 8388480, Free 0] (fresh 0x1000000 0x5000000))
     = Some [0x1000028, 0x1800050, 0x1800080]
   \<and> observe (free_at 0x1800058)
       (run [Malloc 8388608, Malloc 8, Malloc 8388480, Free 0] (fresh 0x1000000 0x5000000))
       = Some 0
   \<and> observe HMMtraverse
       (run [Malloc 8388608, Malloc 8, Malloc 8388480, Free 0, Free 2]
         (fresh 0x1000000 0x5000000)) = Some (Some [0x1000000, 0x1800028, 0x1800058])
   \<and> observe (free_at 0x1800058)
       (run [Malloc 8388608, Malloc 8, Malloc 8388480, Free 0, Free 2]
         (fresh 0x1000000 0x5000000)) = Some 1
   \<and> observe (size_at 0x1800058)
       (run [Malloc 8388608, Malloc 8, Malloc 8388480, Free 0, Free 2]
         (fresh 0x1000000 0x5000000)) = Some 8388480
   \<and> (8388480 :: size_t) div ALIGNMENT - 1 = 1048559
   \<and> (1048559 :: size_t) < MULTIPLES_MAX
   \<and> observe (added_at 0x1800058)
       (run [Malloc 8388608, Malloc 8, Malloc 8388480, Free 0, Free 2]
         (fresh 0x1000000 0x5000000)) = Some 0
   \<and> observe (bucket 1048559)
       (run [Malloc 8388608, Malloc 8, Malloc 8388480, Free 0, Free 2]
         (fresh 0x1000000 0x5000000)) = Some NULL
   \<and> observe brk
       (run [Malloc 8388608, Malloc 8, Malloc 8388480, Free 0, Free 2]
         (fresh 0x1000000 0x5000000)) = Some 0x2000000"
  using shrink_walk_before_run shrink_walk_run
  by (simp add: Let_def ALIGNMENT_def MULTIPLES_MAX_def ALLOCATED_BYTES_def)

section \<open>A resize that cannot allocate\<close>





end
